theory Spec2Isabelle
  imports
    Main
    "HOL-Library.Word"
    "HOL-Library.AList"
    "HOL-Library.Multiset"
    "HOL-Library.Char_ord"
    "HOL-Library.List_Lexorder"
    "HOL-Library.Product_Lexorder"
begin

section \<open>Data model (backup.go)\<close>

text \<open>
  A byte slice is a list of 8-bit words. Go's \<^verbatim>\<open>error\<close> values are tagged by where they
  come from: an operating-system call that fails (\<open>IOError\<close>), the error \<^verbatim>\<open>restore\<close> builds
  itself with \<^verbatim>\<open>fmt.Errorf("no backup chunks found in %s", ...)\<close> (\<open>NotFoundError\<close>), a
  segment that does not decode (\<open>DecodeError\<close>) and \<^verbatim>\<open>filepath.ErrBadPattern\<close>.
\<close>

type_synonym bytes = "8 word list"

datatype error =
    IOError string
  | NotFoundError string
  | DecodeError string
  | ErrBadPattern

text \<open>
  \<^verbatim>\<open>type FileEntry struct { Path; Mode os.FileMode; ModTime time.Time; Size int64;
  Content []byte; Deleted bool }\<close>.
  \<open>ModTime\<close> is the instant in nanoseconds since the Unix epoch. The slice
  \<^verbatim>\<open>[]*FileEntry\<close> of a chunk is a list of entries: the pointers the program stores are
  never nil (they come from \<^verbatim>\<open>&FileEntry{...}\<close> or from the decoder).
\<close>

record FileEntry =
  Path :: string
  Mode :: "32 word"
  ModTime :: int
  Size :: "64 word"
  Content :: bytes
  Deleted :: bool

record Chunk =
  Entries :: "FileEntry list"

definition chunkSize :: nat where
  "chunkSize = 5 * 1024 * 1024"

text \<open>The zero \<^verbatim>\<open>time.Time\<close> (January 1, year 1, 00:00 UTC) as an instant.\<close>

definition zeroTime :: int where
  "zeroTime = - 62135596800 * 1000000000"

text \<open>
  A Go \<^verbatim>\<open>map[string]V\<close> is an association list with one pair per key: \<open>map_of\<close> looks a
  key up, \<open>AList.update\<close> is \<^verbatim>\<open>m[k] = v\<close>, \<open>AList.delete\<close> is \<^verbatim>\<open>delete(m, k)\<close>. The
  order of the pairs carries no meaning: a \<^verbatim>\<open>range\<close> over a map visits the keys in an
  order the runtime chooses (see \<open>shuffle\<close> below).
\<close>

type_synonym 'v gomap = "(string \<times> 'v) list"

definition keys :: "'v gomap \<Rightarrow> string list" where
  "keys m = map fst m"

section \<open>The restore fold (restore.go)\<close>

text \<open>
  The two tables of \<^verbatim>\<open>restore\<close>: \<^verbatim>\<open>fileData := make(map[string]*FileEntry)\<close> and
  \<^verbatim>\<open>deletedFiles := make(map[string]bool)\<close>.
\<close>

record RestoreState =
  fileData :: "FileEntry gomap"
  deletedFiles :: "bool gomap"

definition emptyState :: RestoreState where
  "emptyState = \<lparr>fileData = [], deletedFiles = []\<rparr>"

text \<open>The body of the inner loop \<^verbatim>\<open>for _, entry := range chunk.Entries\<close>.\<close>

definition applyEntry :: "RestoreState \<Rightarrow> FileEntry \<Rightarrow> RestoreState" where
  "applyEntry st entry =
     (if Deleted entry then
        \<lparr>fileData = AList.delete (Path entry) (fileData st),
         deletedFiles = AList.update (Path entry) True (deletedFiles st)\<rparr>
      else
        \<lparr>fileData = AList.update (Path entry) entry (fileData st),
         deletedFiles = AList.delete (Path entry) (deletedFiles st)\<rparr>)"

definition applyChunk :: "RestoreState \<Rightarrow> Chunk \<Rightarrow> RestoreState" where
  "applyChunk st chunk = foldl applyEntry st (Entries chunk)"

text \<open>The last record of a journal for a path, if the path occurs at all.\<close>

definition lastRecord :: "string \<Rightarrow> FileEntry list \<Rightarrow> FileEntry option" where
  "lastRecord p rs = find (\<lambda>e. Path e = p) (rev rs)"

section \<open>The operating system and the Go library\<close>

text \<open>
  The file system holds regular files by full path; directories are not tracked. Which
  operating-system calls fail is the environment's choice, given by \<open>fault\<close> per call
  site and path. \<open>torn\<close> is the number of bytes that reach a file when a write to it
  fails, \<open>now\<close> the clock in nanoseconds since the Unix epoch, and \<open>createMode\<close> the
  permission bits a new file gets from the ones asked for (the process umask).
\<close>

datatype oscall =
    MkdirAllCall | CreateCall | EncodeCall | OpenCall | CopyCall | DecodeCall
  | InfoCall | ReadFileCall | WriteFileOpen | WriteFileWrite | ChtimesCall

text \<open>
  Of a file: the bytes a read of it gives, and the size, the mode and the modification
  time (nanoseconds since the Unix epoch) that \<^verbatim>\<open>lstat\<close> reports for it.
\<close>

record osfile =
  fcontent :: bytes
  fsize :: "64 word"
  fperm :: "32 word"
  fmtime :: int

record world =
  fsys :: "osfile gomap"
  fault :: "oscall \<Rightarrow> string \<Rightarrow> bool"
  torn :: nat
  now :: int
  createMode :: "32 word \<Rightarrow> 32 word"

text \<open>What \<^verbatim>\<open>filepath.WalkDir\<close> hands to its callback: \<^verbatim>\<open>(path, d, err)\<close>.\<close>

datatype walkItem = WalkItem (wpath: string) (wisDir: bool) (werr: "error option")

text \<open>
  The functions of Go's standard library the program calls and whose code is not part of
  it are parameters: \<^verbatim>\<open>filepath.Join\<close>, \<^verbatim>\<open>filepath.Dir\<close>, \<^verbatim>\<open>filepath.Rel\<close>,
  \<^verbatim>\<open>filepath.Glob\<close> (\<open>None\<close> is \<^verbatim>\<open>ErrBadPattern\<close>, its only error),
  \<^verbatim>\<open>filepath.WalkDir\<close> (the items it would present if the callback never failed), the
  \<^verbatim>\<open>encoding/gob\<close> encoder and decoder, \<^verbatim>\<open>crypto/sha256\<close>, and the order in which a
  \<^verbatim>\<open>range\<close> visits the keys of a map.
\<close>

record golib =
  Join :: "string \<Rightarrow> string \<Rightarrow> string"
  Dir :: "string \<Rightarrow> string"
  Rel :: "string \<Rightarrow> string \<Rightarrow> error + string"
  Glob :: "world \<Rightarrow> string \<Rightarrow> string list option"
  WalkDir :: "world \<Rightarrow> string \<Rightarrow> walkItem list"
  gobEncode :: "Chunk \<Rightarrow> bytes"
  gobDecode :: "bytes \<Rightarrow> Chunk option"
  sha256 :: "bytes \<Rightarrow> bytes"
  shuffle :: "string list \<Rightarrow> string list"

text \<open>\<^verbatim>\<open>for _, v := range m\<close>: the values of the map, in the order of the runtime.\<close>

definition rangeValues :: "golib \<Rightarrow> 'v gomap \<Rightarrow> 'v list" where
  "rangeValues env m = List.map_filter (map_of m) (shuffle env (keys m))"

definition MkdirAll :: "world \<Rightarrow> string \<Rightarrow> error option" where
  "MkdirAll w path = (if fault w MkdirAllCall path then Some (IOError path) else None)"

text \<open>
  A file opened with \<^verbatim>\<open>O_CREATE|O_TRUNC\<close> and written: an existing file keeps its
  permission bits, a new one gets the bits asked for.
\<close>

definition storeFile :: "world \<Rightarrow> string \<Rightarrow> 32 word \<Rightarrow> bytes \<Rightarrow> world" where
  "storeFile w name perm data =
     w\<lparr>fsys := AList.update name
        \<lparr>fcontent = data,
         fsize = of_nat (length data),
         fperm = (case map_of (fsys w) name of None \<Rightarrow> createMode w perm | Some f \<Rightarrow> fperm f),
         fmtime = now w\<rparr> (fsys w)\<rparr>"

definition WriteFile :: "world \<Rightarrow> string \<Rightarrow> bytes \<Rightarrow> 32 word \<Rightarrow> error option \<times> world" where
  "WriteFile w name data perm =
     (if fault w WriteFileOpen name then (Some (IOError name), w)
      else if fault w WriteFileWrite name
        then (Some (IOError name), storeFile w name perm (take (torn w) data))
      else (None, storeFile w name perm data))"

text \<open>
  \<^verbatim>\<open>os.Chtimes\<close> leaves the time of the file as it is when it is given the zero
  \<^verbatim>\<open>time.Time\<close>; any other time it passes on as \<^verbatim>\<open>t.UnixNano()\<close>, an \<^verbatim>\<open>int64\<close> that
  wraps around for an instant it cannot represent.
\<close>

definition unixNano :: "int \<Rightarrow> int" where
  "unixNano t = sint (word_of_int t :: 64 word)"

definition Chtimes :: "world \<Rightarrow> string \<Rightarrow> int \<Rightarrow> error option \<times> world" where
  "Chtimes w name t =
     (case map_of (fsys w) name of
        None \<Rightarrow> (Some (IOError name), w)
      | Some f \<Rightarrow>
          if fault w ChtimesCall name then (Some (IOError name), w)
          else if t = zeroTime then (None, w)
          else (None, w\<lparr>fsys := AList.update name (f\<lparr>fmtime := unixNano t\<rparr>) (fsys w)\<rparr>))"

section \<open>Segment file names (backup.go, writeChunk)\<close>

text \<open>
  \<^verbatim>\<open>fmt.Sprintf("chunk_%d_%03d.dat", timestamp, num)\<close>. The verb \<^verbatim>\<open>%d\<close> prints the decimal
  digits with a leading minus sign for a negative number; \<^verbatim>\<open>%03d\<close> pads with zeros to
  three characters, the sign counted, and prints a longer number in full.
\<close>

definition digitChar :: "nat \<Rightarrow> char" where
  "digitChar d = char_of (48 + d)"

function decimal :: "nat \<Rightarrow> string" where
  "decimal n = (if n < 10 then [digitChar n] else decimal (n div 10) @ [digitChar (n mod 10)])"
  by pat_completeness auto
termination
  by (relation "measure id") auto

declare decimal.simps [simp del]

definition fmt_d :: "int \<Rightarrow> string" where
  "fmt_d i = (if i < 0 then CHR ''-'' # decimal (nat (- i)) else decimal (nat i))"

definition zeroPad :: "nat \<Rightarrow> string \<Rightarrow> string" where
  "zeroPad n s = replicate (n - length s) CHR ''0'' @ s"

definition fmt_03d :: "int \<Rightarrow> string" where
  "fmt_03d i =
     (if i < 0 then CHR ''-'' # zeroPad 2 (decimal (nat (- i))) else zeroPad 3 (decimal (nat i)))"

definition chunkName :: "int \<Rightarrow> int \<Rightarrow> string" where
  "chunkName timestamp num = ''chunk_'' @ fmt_d timestamp @ ''_'' @ fmt_03d num @ ''.dat''"

section \<open>Journal writer (backup.go)\<close>

text \<open>
  \<^verbatim>\<open>writeChunk\<close>: \<^verbatim>\<open>os.Create\<close> (mode 0666) and \<^verbatim>\<open>gob.NewEncoder(file).Encode(chunk)\<close>.
\<close>

definition writeChunk ::
  "golib \<Rightarrow> world \<Rightarrow> string \<Rightarrow> int \<Rightarrow> int \<Rightarrow> Chunk \<Rightarrow> error option \<times> world" where
  "writeChunk env w backupPath timestamp num chunk =
     (let filename = Join env backupPath (chunkName timestamp num) in
      if fault w CreateCall filename then (Some (IOError filename), w)
      else if fault w EncodeCall filename
        then (Some (IOError filename), storeFile w filename 438 (take (torn w) (gobEncode env chunk)))
      else (None, storeFile w filename 438 (gobEncode env chunk)))"

text \<open>
  The state of the loop of \<^verbatim>\<open>createBackup\<close>. \<open>written\<close> is not a variable of the program:
  it records, in order, the calls of \<^verbatim>\<open>writeChunk\<close> that returned no error. The sizes are
  Go \<^verbatim>\<open>int\<close>s that cannot overflow (they are bounded by the memory the contents occupy).
\<close>

record packState =
  pworld :: world
  chunkNum :: int
  currentChunk :: Chunk
  currentSize :: nat
  written :: "(int \<times> Chunk) list"

definition entrySize :: "FileEntry \<Rightarrow> nat" where
  "entrySize entry = length (Content entry) + 1024"

fun packLoop ::
  "golib \<Rightarrow> string \<Rightarrow> int \<Rightarrow> FileEntry list \<Rightarrow> packState \<Rightarrow> error option \<times> packState" where
  "packLoop env backupPath timestamp [] s = (None, s)"
| "packLoop env backupPath timestamp (entry # rest) s =
     (if currentSize s + entrySize entry > chunkSize \<and> length (Entries (currentChunk s)) > 0 then
        (case writeChunk env (pworld s) backupPath timestamp (chunkNum s) (currentChunk s) of
           (Some err, w') \<Rightarrow> (Some err, s\<lparr>pworld := w'\<rparr>)
         | (None, w') \<Rightarrow>
             packLoop env backupPath timestamp rest
               \<lparr>pworld = w', chunkNum = chunkNum s + 1,
                currentChunk = \<lparr>Entries = [entry]\<rparr>,
                currentSize = entrySize entry,
                written = written s @ [(chunkNum s, currentChunk s)]\<rparr>)
      else
        packLoop env backupPath timestamp rest
          (s\<lparr>currentChunk := \<lparr>Entries = Entries (currentChunk s) @ [entry]\<rparr>,
             currentSize := currentSize s + entrySize entry\<rparr>))"

text \<open>
  \<^verbatim>\<open>createBackup\<close> returns its error, and here also the file system it leaves and the
  segments it wrote. \<^verbatim>\<open>time.Now().Unix()\<close> is the clock in whole seconds.
\<close>

definition createBackup ::
  "golib \<Rightarrow> world \<Rightarrow> string \<Rightarrow> FileEntry list \<Rightarrow> error option \<times> world \<times> (int \<times> Chunk) list" where
  "createBackup env w backupPath entries =
     (let timestamp = now w div 1000000000 in
      case packLoop env backupPath timestamp entries
             \<lparr>pworld = w, chunkNum = 0, currentChunk = \<lparr>Entries = []\<rparr>, currentSize = 0,
              written = []\<rparr> of
        (Some err, s) \<Rightarrow> (Some err, pworld s, written s)
      | (None, s) \<Rightarrow>
          if length (Entries (currentChunk s)) > 0 then
            (case writeChunk env (pworld s) backupPath timestamp (chunkNum s) (currentChunk s) of
               (Some err, w') \<Rightarrow> (Some err, w', written s)
             | (None, w') \<Rightarrow> (None, w', written s @ [(chunkNum s, currentChunk s)]))
          else (None, pworld s, written s))"

section \<open>Journal reader and replayer (restore.go)\<close>

text \<open>\<^verbatim>\<open>readChunk\<close>: \<^verbatim>\<open>os.Open\<close> and \<^verbatim>\<open>gob.NewDecoder(file).Decode(&chunk)\<close>.\<close>

definition readChunk :: "golib \<Rightarrow> world \<Rightarrow> string \<Rightarrow> error + Chunk" where
  "readChunk env w filename =
     (if fault w OpenCall filename then Inl (IOError filename)
      else case map_of (fsys w) filename of
        None \<Rightarrow> Inl (IOError filename)
      | Some f \<Rightarrow>
          if fault w DecodeCall filename then Inl (IOError filename)
          else (case gobDecode env (fcontent f) of
                  None \<Rightarrow> Inl (DecodeError filename)
                | Some chunk \<Rightarrow> Inr chunk))"

text \<open>
  The loop \<^verbatim>\<open>for _, chunkFile := range files\<close>: a segment that cannot be read is logged and
  skipped (\<^verbatim>\<open>continue\<close>).
\<close>

fun readChunks :: "golib \<Rightarrow> world \<Rightarrow> string list \<Rightarrow> RestoreState \<Rightarrow> RestoreState" where
  "readChunks env w [] st = st"
| "readChunks env w (chunkFile # rest) st =
     (case readChunk env w chunkFile of
        Inl err \<Rightarrow> readChunks env w rest st
      | Inr chunk \<Rightarrow> readChunks env w rest (applyChunk st chunk))"

text \<open>
  The loop \<^verbatim>\<open>for _, entry := range fileData\<close>. A failure of \<^verbatim>\<open>os.Chtimes\<close> is logged
  only.
\<close>

fun materialize :: "golib \<Rightarrow> string \<Rightarrow> FileEntry list \<Rightarrow> world \<Rightarrow> error option \<times> world" where
  "materialize env restorePath [] w = (None, w)"
| "materialize env restorePath (entry # rest) w =
     (let targetPath = Join env restorePath (Path entry) in
      case MkdirAll w (Dir env targetPath) of
        Some err \<Rightarrow> (Some err, w)
      | None \<Rightarrow>
          (case WriteFile w targetPath (Content entry) (Mode entry) of
             (Some err, w1) \<Rightarrow> (Some err, w1)
           | (None, w1) \<Rightarrow>
               materialize env restorePath rest (snd (Chtimes w1 targetPath (ModTime entry)))))"

definition restore :: "golib \<Rightarrow> world \<Rightarrow> string \<Rightarrow> string \<Rightarrow> error option \<times> world" where
  "restore env w backupPath restorePath =
     (case MkdirAll w restorePath of
        Some err \<Rightarrow> (Some err, w)
      | None \<Rightarrow>
          (case Glob env w (Join env backupPath ''chunk_*.dat'') of
             None \<Rightarrow> (Some ErrBadPattern, w)
           | Some files \<Rightarrow>
               if length files = 0 then (Some (NotFoundError backupPath), w)
               else materialize env restorePath
                      (rangeValues env (fileData (readChunks env w (sort files) emptyState))) w))"

section \<open>Snapshot differ (watch.go)\<close>

text \<open>\<^verbatim>\<open>fmt.Sprintf("%x", hash.Sum(nil))\<close>: two lower-case hexadecimal digits per byte.\<close>

definition hexDigit :: "nat \<Rightarrow> char" where
  "hexDigit d = (if d < 10 then char_of (48 + d) else char_of (87 + d))"

definition hexBytes :: "bytes \<Rightarrow> string" where
  "hexBytes bs = concat (map (\<lambda>b. [hexDigit (unat b div 16), hexDigit (unat b mod 16)]) bs)"

text \<open>\<^verbatim>\<open>hashFile\<close>: \<^verbatim>\<open>os.Open\<close>, \<^verbatim>\<open>io.Copy\<close> into the hash, and the digest in hexadecimal.\<close>

definition hashFile :: "golib \<Rightarrow> world \<Rightarrow> string \<Rightarrow> error + string" where
  "hashFile env w path =
     (if fault w OpenCall path then Inl (IOError path)
      else case map_of (fsys w) path of
        None \<Rightarrow> Inl (IOError path)
      | Some f \<Rightarrow>
          if fault w CopyCall path then Inl (IOError path)
          else Inr (hexBytes (sha256 env (fcontent f))))"

text \<open>\<^verbatim>\<open>d.Info()\<close> and \<^verbatim>\<open>os.ReadFile(path)\<close>.\<close>

definition Info :: "world \<Rightarrow> string \<Rightarrow> error + osfile" where
  "Info w path =
     (if fault w InfoCall path then Inl (IOError path)
      else case map_of (fsys w) path of None \<Rightarrow> Inl (IOError path) | Some f \<Rightarrow> Inr f)"

definition ReadFile :: "world \<Rightarrow> string \<Rightarrow> error + bytes" where
  "ReadFile w path =
     (if fault w ReadFileCall path then Inl (IOError path)
      else case map_of (fsys w) path of None \<Rightarrow> Inl (IOError path) | Some f \<Rightarrow> Inr (fcontent f))"

text \<open>The variables the callback of \<^verbatim>\<open>filepath.WalkDir\<close> closes over.\<close>

record walkState =
  current :: "string gomap"
  changes :: "FileEntry list"

text \<open>The callback: \<open>Inl\<close> is the error it returns, which ends the walk.\<close>

definition visit ::
  "golib \<Rightarrow> world \<Rightarrow> string \<Rightarrow> string gomap \<Rightarrow> walkState \<Rightarrow> walkItem \<Rightarrow> error + walkState" where
  "visit env w watchPath snapshot s item =
     (case werr item of
        Some err \<Rightarrow> Inl err
      | None \<Rightarrow>
          if wisDir item then Inr s
          else (case Rel env watchPath (wpath item) of
            Inl err \<Rightarrow> Inl err
          | Inr relPath \<Rightarrow>
              (case hashFile env w (wpath item) of
                 Inl err \<Rightarrow> Inl err
               | Inr hash \<Rightarrow>
                   if map_of snapshot relPath \<noteq> Some hash then
                     (case Info w (wpath item) of
                        Inl err \<Rightarrow> Inl err
                      | Inr info \<Rightarrow>
                          (case ReadFile w (wpath item) of
                             Inl err \<Rightarrow> Inl err
                           | Inr content \<Rightarrow>
                               Inr \<lparr>current = AList.update relPath hash (current s),
                                    changes = changes s @
                                      [\<lparr>Path = relPath, Mode = fperm info, ModTime = fmtime info,
                                        Size = fsize info,
                                        Content = content, Deleted = False\<rparr>]\<rparr>))
                   else Inr \<lparr>current = AList.update relPath hash (current s),
                             changes = changes s\<rparr>)))"

fun walk ::
  "golib \<Rightarrow> world \<Rightarrow> string \<Rightarrow> string gomap \<Rightarrow> walkItem list \<Rightarrow> walkState \<Rightarrow> error + walkState" where
  "walk env w watchPath snapshot [] s = Inr s"
| "walk env w watchPath snapshot (item # rest) s =
     (case visit env w watchPath snapshot s item of
        Inl err \<Rightarrow> Inl err
      | Inr s' \<Rightarrow> walk env w watchPath snapshot rest s')"

text \<open>\<^verbatim>\<open>&FileEntry{Path: oldPath, Deleted: true}\<close>: the other fields are zero.\<close>

definition deletedEntry :: "string \<Rightarrow> FileEntry" where
  "deletedEntry oldPath =
     \<lparr>Path = oldPath, Mode = 0, ModTime = zeroTime, Size = 0, Content = [], Deleted = True\<rparr>"

text \<open>\<^verbatim>\<open>maps.Copy(dst, src)\<close>: \<^verbatim>\<open>for k, v := range src { dst[k] = v }\<close>.\<close>

definition mapsCopy :: "golib \<Rightarrow> 'v gomap \<Rightarrow> 'v gomap \<Rightarrow> 'v gomap" where
  "mapsCopy env dst src =
     foldl (\<lambda>m k. case map_of src k of None \<Rightarrow> m | Some v \<Rightarrow> AList.update k v m) dst
       (shuffle env (keys src))"

text \<open>
  The last loop of \<^verbatim>\<open>detectChanges\<close>:
  \<^verbatim>\<open>for oldPath := range snapshot { if _, exists := current[oldPath]; !exists { delete(snapshot, oldPath) } }\<close>.
\<close>

definition dropAbsent :: "golib \<Rightarrow> string gomap \<Rightarrow> string gomap \<Rightarrow> string gomap" where
  "dropAbsent env snapshot cur =
     foldl (\<lambda>m oldPath. if map_of cur oldPath = None then AList.delete oldPath m else m) snapshot
       (shuffle env (keys snapshot))"

text \<open>
  \<^verbatim>\<open>detectChanges\<close> returns the changes and the error, and here also the snapshot it
  leaves (the program mutates the map it is given).
\<close>

definition detectChanges ::
  "golib \<Rightarrow> world \<Rightarrow> string \<Rightarrow> string gomap \<Rightarrow> (FileEntry list \<times> error option) \<times> string gomap" where
  "detectChanges env w watchPath snapshot =
     (case walk env w watchPath snapshot (WalkDir env w watchPath) \<lparr>current = [], changes = []\<rparr> of
        Inl err \<Rightarrow> (([], Some err), snapshot)
      | Inr s \<Rightarrow>
          ((changes s @
              map deletedEntry
                (filter (\<lambda>oldPath. map_of (current s) oldPath = None) (shuffle env (keys snapshot))),
            None),
           dropAbsent env (mapsCopy env snapshot (current s)) (current s)))"

section \<open>Notions the statements use\<close>

text \<open>
  The segments of a list of segment files that \<^verbatim>\<open>readChunk\<close> reads without error, in the
  order of the list, and their records one after the other.
\<close>

definition decodedChunks :: "golib \<Rightarrow> world \<Rightarrow> string list \<Rightarrow> Chunk list" where
  "decodedChunks env w files =
     List.map_filter (\<lambda>f. case readChunk env w f of Inl err \<Rightarrow> None | Inr chunk \<Rightarrow> Some chunk) files"

definition journalRecords :: "golib \<Rightarrow> world \<Rightarrow> string list \<Rightarrow> FileEntry list" where
  "journalRecords env w files = concat (map Entries (decodedChunks env w files))"

text \<open>
  The state \<^verbatim>\<open>restore\<close> folds from the journal at \<open>backupPath\<close>; the empty tables when the
  listing fails.
\<close>

definition journalState :: "golib \<Rightarrow> world \<Rightarrow> string \<Rightarrow> RestoreState" where
  "journalState env w backupPath =
     (case Glob env w (Join env backupPath ''chunk_*.dat'') of
        None \<Rightarrow> emptyState
      | Some files \<Rightarrow> readChunks env w (sort files) emptyState)"

text \<open>No call that prepares or writes a restored file fails.\<close>

definition writable :: "world \<Rightarrow> bool" where
  "writable w \<longleftrightarrow>
     (\<forall>path. \<not> fault w MkdirAllCall path \<and> \<not> fault w WriteFileOpen path \<and>
             \<not> fault w WriteFileWrite path)"

text \<open>A \<^verbatim>\<open>range\<close> over a map visits exactly the keys of the map.\<close>

definition rangeVisitsKeys :: "golib \<Rightarrow> bool" where
  "rangeVisitsKeys env \<longleftrightarrow> (\<forall>ks. set (shuffle env ks) = set ks)"

text \<open>
  The relative path and the fingerprint of every regular file of a walk for which
  \<^verbatim>\<open>filepath.Rel\<close> and \<^verbatim>\<open>hashFile\<close> succeed.
\<close>

definition relHash :: "golib \<Rightarrow> world \<Rightarrow> string \<Rightarrow> walkItem \<Rightarrow> (string \<times> string) option" where
  "relHash env w watchPath item =
     (if wisDir item then None
      else case Rel env watchPath (wpath item) of
        Inl err \<Rightarrow> None
      | Inr relPath \<Rightarrow>
          (case hashFile env w (wpath item) of Inl err \<Rightarrow> None | Inr hash \<Rightarrow> Some (relPath, hash)))"

definition relHashes :: "golib \<Rightarrow> world \<Rightarrow> string \<Rightarrow> (string \<times> string) list" where
  "relHashes env w watchPath = List.map_filter (relHash env w watchPath) (WalkDir env w watchPath)"

text \<open>
  A walk item the callback passes without error whatever the snapshot holds, and the map
  that results from storing a list of (relative path, fingerprint) pairs in order.
\<close>

definition scanned :: "golib \<Rightarrow> world \<Rightarrow> string \<Rightarrow> walkItem \<Rightarrow> bool" where
  "scanned env w watchPath item \<longleftrightarrow>
     werr item = None \<and> (wisDir item \<or> relHash env w watchPath item \<noteq> None)"

definition putAll :: "string gomap \<Rightarrow> (string \<times> string) list \<Rightarrow> string gomap" where
  "putAll m ps = foldl (\<lambda>m rh. AList.update (fst rh) (snd rh) m) m ps"

text \<open>
  Decimal digits and the number a string of digits denotes; the name of a segment given
  as the pair (timestamp, sequence number); and the segments whose names have fields of
  one width: non-negative timestamps of \<open>width\<close> digits and sequence numbers from 0 to 999.
\<close>

definition digitVal :: "char \<Rightarrow> nat" where
  "digitVal c = of_char c - 48"

definition isDigit :: "char \<Rightarrow> bool" where
  "isDigit c \<longleftrightarrow> 48 \<le> (of_char c :: nat) \<and> (of_char c :: nat) \<le> 57"

definition decimalValue :: "string \<Rightarrow> nat" where
  "decimalValue s = foldl (\<lambda>v c. 10 * v + digitVal c) 0 s"

definition segmentName :: "int \<times> int \<Rightarrow> string" where
  "segmentName seg = chunkName (fst seg) (snd seg)"

definition uniformSegments :: "nat \<Rightarrow> (int \<times> int) list \<Rightarrow> bool" where
  "uniformSegments width segs \<longleftrightarrow>
     list_all (\<lambda>seg. 0 \<le> fst seg \<and> length (fmt_d (fst seg)) = width \<and>
                    0 \<le> snd seg \<and> snd seg < 1000) segs"

text \<open>The sum of the sizes \<^verbatim>\<open>createBackup\<close> counts for the records of a segment.\<close>

definition segmentSize :: "Chunk \<Rightarrow> nat" where
  "segmentSize chunk = sum_list (map entrySize (Entries chunk))"

text \<open>
  Adding the first record of the segment \<open>d\<close> to the segment \<open>c\<close> would exceed the
  limit; a segment is within the limit or holds at most one record; the file system
  after the file of a segment (sequence number, records) is created with mode 0666 and
  holds the encoding of the segment, and the path of that file; no call that creates or writes a segment file fails.
\<close>

definition overflows :: "Chunk \<Rightarrow> Chunk \<Rightarrow> bool" where
  "overflows c d \<longleftrightarrow> chunkSize < segmentSize c + entrySize (hd (Entries d))"

definition softBounded :: "Chunk \<Rightarrow> bool" where
  "softBounded c \<longleftrightarrow> segmentSize c \<le> chunkSize \<or> length (Entries c) \<le> 1"

definition storeSegment :: "golib \<Rightarrow> string \<Rightarrow> int \<Rightarrow> world \<Rightarrow> int \<times> Chunk \<Rightarrow> world" where
  "storeSegment env backupPath timestamp w seg =
     storeFile w (Join env backupPath (chunkName timestamp (fst seg))) 438 (gobEncode env (snd seg))"

definition segmentFile :: "golib \<Rightarrow> string \<Rightarrow> int \<Rightarrow> int \<times> Chunk \<Rightarrow> string" where
  "segmentFile env backupPath timestamp seg = Join env backupPath (chunkName timestamp (fst seg))"

definition noWriteFault :: "world \<Rightarrow> bool" where
  "noWriteFault w \<longleftrightarrow> (\<forall>path. \<not> fault w CreateCall path \<and> \<not> fault w EncodeCall path)"

text \<open>
  The invariant of the loop of \<^verbatim>\<open>createBackup\<close>, \<open>seen\<close> being the records it has taken
  from the input so far.
\<close>

definition packInv :: "FileEntry list \<Rightarrow> packState \<Rightarrow> bool" where
  "packInv seen s \<longleftrightarrow>
     concat (map (\<lambda>seg. Entries (snd seg)) (written s)) @ Entries (currentChunk s) = seen \<and>
     currentSize s = segmentSize (currentChunk s) \<and>
     chunkNum s = int (length (written s)) \<and>
     map fst (written s) = map int [0..<length (written s)] \<and>
     (written s \<noteq> [] \<longrightarrow> Entries (currentChunk s) \<noteq> []) \<and>
     list_all (\<lambda>seg. Entries (snd seg) \<noteq> []) (written s) \<and>
     list_all softBounded (map snd (written s) @ [currentChunk s]) \<and>
     successively overflows (map snd (written s) @ [currentChunk s])"

section \<open>A test double of the library and example journals\<close>

text \<open>
  An instance of the library for running the program on concrete inputs: paths are joined
  with a slash, \<^verbatim>\<open>Glob\<close> lists the files whose path starts like the pattern up to its
  \<^verbatim>\<open>*.dat\<close>, the walk presents the files below the root, a \<^verbatim>\<open>range\<close> visits the keys in
  the order of the list, the encoder writes the paths of the records, and the decoder
  knows four segments and rejects every other byte sequence.
\<close>

definition bytesOf :: "string \<Rightarrow> bytes" where
  "bytesOf s = map (\<lambda>c. of_nat (of_char c)) s"

definition liveEntry :: "string \<Rightarrow> string \<Rightarrow> FileEntry" where
  "liveEntry p text =
     \<lparr>Path = p, Mode = 420, ModTime = 1700000000000000000, Size = of_nat (length text),
      Content = bytesOf text, Deleted = False\<rparr>"

definition exampleDecode :: "bytes \<Rightarrow> Chunk option" where
  "exampleDecode bs =
     (if bs = [1] then Some \<lparr>Entries = [liveEntry ''file.txt'' ''original'']\<rparr>
      else if bs = [2] then Some \<lparr>Entries = [deletedEntry ''file.txt'']\<rparr>
      else if bs = [3] then Some \<lparr>Entries = [liveEntry ''file.txt'' ''recreated'']\<rparr>
      else if bs = [4] then Some \<lparr>Entries = [liveEntry ''keep.txt'' ''kept'']\<rparr>
      else None)"

definition exampleLib :: golib where
  "exampleLib =
     \<lparr>Join = (\<lambda>dir name. dir @ ''/'' @ name),
      Dir = (\<lambda>path. path),
      Rel = (\<lambda>base path. Inr (drop (length base + 1) path)),
      Glob = (\<lambda>w pattern.
        Some (filter (\<lambda>path. take (length pattern - 5) path = take (length pattern - 5) pattern)
                (keys (fsys w)))),
      WalkDir = (\<lambda>w root.
        map (\<lambda>path. WalkItem path False None)
          (filter (\<lambda>path. take (length root + 1) path = root @ ''/'') (keys (fsys w)))),
      gobEncode = (\<lambda>chunk. concat (map (\<lambda>entry. bytesOf (Path entry)) (Entries chunk))),
      gobDecode = exampleDecode,
      sha256 = (\<lambda>bs. bs),
      shuffle = (\<lambda>ks. ks)\<rparr>"

definition plainFile :: "bytes \<Rightarrow> osfile" where
  "plainFile bs = \<lparr>fcontent = bs, fsize = of_nat (length bs), fperm = 420, fmtime = 0\<rparr>"

definition exampleWorld :: "osfile gomap \<Rightarrow> world" where
  "exampleWorld fs =
     \<lparr>fsys = fs, fault = (\<lambda>call path. False), torn = 0, now = 1700000000000000000,
      createMode = (\<lambda>perm. perm)\<rparr>"

text \<open>Create, tombstone, recreate; and the same journal cut after the tombstone.\<close>

definition journal3 :: world where
  "journal3 = exampleWorld
     [(''bak/chunk_3000_000.dat'', plainFile [3]),
      (''bak/chunk_1000_000.dat'', plainFile [1]),
      (''bak/chunk_2000_000.dat'', plainFile [2])]"

definition journal2 :: world where
  "journal2 = exampleWorld
     [(''bak/chunk_1000_000.dat'', plainFile [1]),
      (''bak/chunk_2000_000.dat'', plainFile [2])]"

text \<open>One well-formed segment and one of bytes that do not decode.\<close>

definition corruptJournal :: world where
  "corruptJournal = exampleWorld
     [(''bak/chunk_1000_000.dat'', plainFile [1]),
      (''bak/chunk_2000_000.dat'', plainFile (bytesOf ''corrupted data''))]"

text \<open>
  A journal with a tombstoned path and a live one, and a target directory that already
  holds a file for each of them and a file the journal never mentions.
\<close>

definition staleTarget :: world where
  "staleTarget = exampleWorld
     [(''bak/chunk_1000_000.dat'', plainFile [1]),
      (''bak/chunk_2000_000.dat'', plainFile [2]),
      (''bak/chunk_2000_001.dat'', plainFile [4]),
      (''out/file.txt'', plainFile (bytesOf ''stale'')),
      (''out/other.txt'', plainFile (bytesOf ''unrelated'')),
      (''out/keep.txt'', plainFile (bytesOf ''old''))]"

text \<open>An empty backup directory, and one whose restore target cannot be created.\<close>

definition emptyBackup :: world where
  "emptyBackup = exampleWorld []"

definition blockedTarget :: world where
  "blockedTarget = (exampleWorld [])\<lparr>fault := (\<lambda>call path. call = MkdirAllCall \<and> path = ''out'')\<rparr>"

text \<open>A watched tree of two files, and the same tree with one file that cannot be opened.\<close>

definition watchedTree :: world where
  "watchedTree = exampleWorld
     [(''src/a.txt'', plainFile (bytesOf ''x'')),
      (''src/sub/b.txt'', plainFile (bytesOf ''y''))]"

definition unreadableTree :: world where
  "unreadableTree = watchedTree\<lparr>fault := (\<lambda>call path. call = OpenCall \<and> path = ''src/sub/b.txt'')\<rparr>"

text \<open>Records of a given content size: two of 2 MiB, one of 10 MiB and a small one.\<close>

definition sizedEntry :: "string \<Rightarrow> nat \<Rightarrow> FileEntry" where
  "sizedEntry p n =
     \<lparr>Path = p, Mode = 420, ModTime = 0, Size = of_nat n, Content = replicate n 0, Deleted = False\<rparr>"

definition mixedEntries :: "FileEntry list" where
  "mixedEntries =
     [sizedEntry ''a'' (2 * 1024 * 1024), sizedEntry ''b'' (2 * 1024 * 1024),
      sizedEntry ''big'' (10 * 1024 * 1024), sizedEntry ''c'' 100]"

section \<open>The fold: no path is live and tombstoned\<close>

lemma applyEntry_fileData:
  "map_of (fileData (applyEntry st e)) p =
     (if Path e = p then (if Deleted e then None else Some e) else map_of (fileData st) p)"
  by (simp add: applyEntry_def AList.update_conv' AList.delete_conv')

lemma applyEntry_deletedFiles:
  "map_of (deletedFiles (applyEntry st e)) p =
     (if Path e = p then (if Deleted e then Some True else None) else map_of (deletedFiles st) p)"
  by (simp add: applyEntry_def AList.update_conv' AList.delete_conv')

lemma applyEntry_disjoint:
  assumes "set (keys (fileData st)) \<inter> set (keys (deletedFiles st)) = {}"
  shows "set (keys (fileData (applyEntry st e))) \<inter> set (keys (deletedFiles (applyEntry st e))) = {}"
proof (cases "Deleted e")
  case True
  have "Path e \<notin> fst ` set (AList.delete (Path e) (fileData st))"
    by (rule AList.delete_notin_dom)
  moreover have "fst ` set (AList.delete (Path e) (fileData st)) \<subseteq> fst ` set (fileData st)"
    by (rule AList.dom_delete_subset)
  ultimately show ?thesis
    using assms True by (auto simp: applyEntry_def keys_def AList.dom_update)
next
  case False
  have "Path e \<notin> fst ` set (AList.delete (Path e) (deletedFiles st))"
    by (rule AList.delete_notin_dom)
  moreover have "fst ` set (AList.delete (Path e) (deletedFiles st)) \<subseteq> fst ` set (deletedFiles st)"
    by (rule AList.dom_delete_subset)
  ultimately show ?thesis
    using assms False by (auto simp: applyEntry_def keys_def AList.dom_update)
qed

lemma foldl_applyEntry_disjoint:
  "set (keys (fileData st)) \<inter> set (keys (deletedFiles st)) = {} \<Longrightarrow>
   set (keys (fileData (foldl applyEntry st rs))) \<inter>
   set (keys (deletedFiles (foldl applyEntry st rs))) = {}"
  by (induction rs arbitrary: st) (simp_all add: applyEntry_disjoint)

text \<open>
  Claim C10. After the fold has processed any prefix of the journal's records, starting
  from the two empty tables, the key sets of \<open>fileData\<close> and \<open>deletedFiles\<close> are disjoint.
\<close>

theorem fold_live_tombstoned_disjoint:
  "set (keys (fileData (foldl applyEntry emptyState (take n rs)))) \<inter>
   set (keys (deletedFiles (foldl applyEntry emptyState (take n rs)))) = {}"
  by (rule foldl_applyEntry_disjoint) (simp add: emptyState_def keys_def)

section \<open>The fold: last writer wins\<close>

lemma lastRecord_snoc:
  "lastRecord p (rs @ [e]) = (if Path e = p then Some e else lastRecord p rs)"
  by (simp add: lastRecord_def)

lemma foldl_applyEntry_fileData:
  "map_of (fileData (foldl applyEntry st rs)) p =
     (case lastRecord p rs of
        None \<Rightarrow> map_of (fileData st) p
      | Some e \<Rightarrow> if Deleted e then None else Some e)"
proof (induction rs rule: rev_induct)
  case Nil
  show ?case by (simp add: lastRecord_def)
next
  case (snoc e rs)
  show ?case
    by (simp add: applyEntry_fileData lastRecord_snoc snoc.IH)
qed

lemma foldl_applyEntry_deletedFiles:
  "map_of (deletedFiles (foldl applyEntry st rs)) p =
     (case lastRecord p rs of
        None \<Rightarrow> map_of (deletedFiles st) p
      | Some e \<Rightarrow> if Deleted e then Some True else None)"
proof (induction rs rule: rev_induct)
  case Nil
  show ?case by (simp add: lastRecord_def)
next
  case (snoc e rs)
  show ?case
    by (simp add: applyEntry_deletedFiles lastRecord_snoc snoc.IH)
qed

lemma readChunks_foldl:
  "readChunks env w files st = foldl applyEntry st (journalRecords env w files)"
proof (induction files arbitrary: st)
  case Nil
  show ?case by (simp add: journalRecords_def decodedChunks_def List.map_filter_simps)
next
  case (Cons f files)
  show ?case
  proof (cases "readChunk env w f")
    case (Inl err)
    then show ?thesis
      using Cons.IH [of st]
      by (simp add: journalRecords_def decodedChunks_def List.map_filter_simps)
  next
    case (Inr chunk)
    then show ?thesis
      using Cons.IH [of "applyChunk st chunk"]
      by (simp add: journalRecords_def decodedChunks_def List.map_filter_simps applyChunk_def)
  qed
qed

lemma keys_map_of: "p \<in> set (keys m) \<longleftrightarrow> map_of m p \<noteq> None"
  by (simp add: keys_def map_of_eq_None_iff)

text \<open>
  Claim C1. After \<^verbatim>\<open>restore\<close> has folded the segment files it could read, in their
  order, a path is live exactly when its last record in the journal is not a deletion,
  and then it is live with that record; it is tombstoned exactly when its last record is
  a deletion; a path with no record is neither.
\<close>

theorem restore_fold_last_writer_wins:
  "map_of (fileData (readChunks env w files emptyState)) p =
     (case lastRecord p (journalRecords env w files) of
        None \<Rightarrow> None
      | Some e \<Rightarrow> if Deleted e then None else Some e) \<and>
   (p \<in> set (keys (deletedFiles (readChunks env w files emptyState))) \<longleftrightarrow>
      (\<exists>e. lastRecord p (journalRecords env w files) = Some e \<and> Deleted e))"
  by (auto simp add: readChunks_foldl foldl_applyEntry_fileData foldl_applyEntry_deletedFiles
      keys_map_of emptyState_def split: option.splits)

section \<open>Restore writes the live paths only\<close>

lemma storeFile_lookup:
  "map_of (fsys (storeFile w name perm data)) loc =
     (if loc = name
      then Some \<lparr>fcontent = data,
                 fsize = of_nat (length data),
                 fperm = (case map_of (fsys w) name of None \<Rightarrow> createMode w perm | Some f \<Rightarrow> fperm f),
                 fmtime = now w\<rparr>
      else map_of (fsys w) loc)"
  by (simp add: storeFile_def AList.update_conv')

lemma storeFile_fault [simp]: "fault (storeFile w name perm data) = fault w"
  by (simp add: storeFile_def)

lemma WriteFile_other:
  "loc \<noteq> name \<Longrightarrow> map_of (fsys (snd (WriteFile w name data perm))) loc = map_of (fsys w) loc"
  by (simp add: WriteFile_def storeFile_lookup)

lemma WriteFile_fault [simp]: "fault (snd (WriteFile w name data perm)) = fault w"
  by (simp add: WriteFile_def)

lemma Chtimes_other:
  "loc \<noteq> name \<Longrightarrow> map_of (fsys (snd (Chtimes w name t))) loc = map_of (fsys w) loc"
  by (simp add: Chtimes_def AList.update_conv' split: option.splits)

lemma Chtimes_fault [simp]: "fault (snd (Chtimes w name t)) = fault w"
  by (simp add: Chtimes_def split: option.splits)

lemma Chtimes_content:
  "map_option fcontent (map_of (fsys (snd (Chtimes w name t))) loc) =
   map_option fcontent (map_of (fsys w) loc)"
  by (simp add: Chtimes_def AList.update_conv' split: option.splits)

lemma materialize_frame:
  "\<forall>e \<in> set es. Join env restorePath (Path e) \<noteq> loc \<Longrightarrow>
   map_of (fsys (snd (materialize env restorePath es w))) loc = map_of (fsys w) loc"
proof (induction es arbitrary: w)
  case Nil
  show ?case by simp
next
  case (Cons e es)
  let ?t = "Join env restorePath (Path e)"
  have ne: "loc \<noteq> ?t" using Cons.prems by auto
  have rest: "\<forall>e \<in> set es. Join env restorePath (Path e) \<noteq> loc" using Cons.prems by simp
  show ?case
  proof (cases "MkdirAll w (Dir env ?t)")
    case (Some err)
    then show ?thesis by simp
  next
    case None
    obtain r w1 where wf: "WriteFile w ?t (Content e) (Mode e) = (r, w1)"
      by (cases "WriteFile w ?t (Content e) (Mode e)")
    have w1: "map_of (fsys w1) loc = map_of (fsys w) loc"
      using WriteFile_other [OF ne, of w "Content e" "Mode e"] wf by simp
    show ?thesis
    proof (cases r)
      case (Some err)
      then show ?thesis using None wf w1 by simp
    next
      case rNone: None
      have "map_of (fsys (snd (materialize env restorePath es (snd (Chtimes w1 ?t (ModTime e)))))) loc =
            map_of (fsys (snd (Chtimes w1 ?t (ModTime e)))) loc"
        by (rule Cons.IH [OF rest])
      then show ?thesis
        using None wf rNone w1 Chtimes_other [OF ne, of w1 "ModTime e"] by simp
    qed
  qed
qed

lemma rangeValues_mem:
  "e \<in> set (rangeValues env m) \<Longrightarrow> \<exists>k. map_of m k = Some e"
  by (auto simp: rangeValues_def List.map_filter_def)

lemma lastRecord_Path: "lastRecord p rs = Some e \<Longrightarrow> Path e = p"
  by (auto simp: lastRecord_def find_Some_iff)

lemma readChunks_key_Path:
  assumes "map_of (fileData (readChunks env w files emptyState)) k = Some e"
  shows "Path e = k"
proof -
  have "map_of (fileData (readChunks env w files emptyState)) k =
          (case lastRecord k (journalRecords env w files) of
             None \<Rightarrow> map_of (fileData emptyState) k
           | Some e \<Rightarrow> if Deleted e then None else Some e)"
    by (simp only: readChunks_foldl foldl_applyEntry_fileData)
  with assms have "lastRecord k (journalRecords env w files) = Some e"
    by (auto simp: emptyState_def split: option.splits if_splits)
  then show ?thesis by (rule lastRecord_Path)
qed

lemma journalState_key_Path:
  "map_of (fileData (journalState env w backupPath)) k = Some e \<Longrightarrow> Path e = k"
  by (auto simp: journalState_def emptyState_def readChunks_key_Path split: option.splits)

lemma restore_journalState:
  "restore env w backupPath restorePath =
     (case MkdirAll w restorePath of
        Some err \<Rightarrow> (Some err, w)
      | None \<Rightarrow>
          (case Glob env w (Join env backupPath ''chunk_*.dat'') of
             None \<Rightarrow> (Some ErrBadPattern, w)
           | Some files \<Rightarrow>
               if files = [] then (Some (NotFoundError backupPath), w)
               else materialize env restorePath
                      (rangeValues env (fileData (journalState env w backupPath))) w))"
  by (simp add: restore_def journalState_def split: option.splits)

text \<open>
  Claim C9. \<^verbatim>\<open>restore\<close> changes no file other than the ones it writes for the paths that
  are live after the fold: every location that is not the target of a live path holds
  after \<^verbatim>\<open>restore\<close>, whether it returns an error or not, what it held before. This
  includes the file of a path that is tombstoned or never appears in the journal, as long
  as no live path is joined to the same location.
\<close>

theorem restore_frame:
  "(loc \<notin> Join env restorePath ` set (keys (fileData (journalState env w backupPath))) \<longrightarrow>
      map_of (fsys (snd (restore env w backupPath restorePath))) loc = map_of (fsys w) loc) \<and>
   (p \<notin> set (keys (fileData (journalState env w backupPath))) \<and>
    inj_on (Join env restorePath) (insert p (set (keys (fileData (journalState env w backupPath))))) \<longrightarrow>
      map_of (fsys (snd (restore env w backupPath restorePath))) (Join env restorePath p) =
      map_of (fsys w) (Join env restorePath p))"
proof -
  let ?live = "set (keys (fileData (journalState env w backupPath)))"
  have frame: "map_of (fsys (snd (restore env w backupPath restorePath))) l = map_of (fsys w) l"
    if out: "l \<notin> Join env restorePath ` ?live" for l
  proof -
    have "\<forall>e \<in> set (rangeValues env (fileData (journalState env w backupPath))).
            Join env restorePath (Path e) \<noteq> l"
    proof
      fix e assume "e \<in> set (rangeValues env (fileData (journalState env w backupPath)))"
      then obtain k where k: "map_of (fileData (journalState env w backupPath)) k = Some e"
        by (auto dest: rangeValues_mem)
      then have "Path e = k" by (rule journalState_key_Path)
      moreover have "k \<in> ?live" using k by (simp add: keys_map_of)
      ultimately show "Join env restorePath (Path e) \<noteq> l" using out by auto
    qed
    then have "map_of (fsys (snd (materialize env restorePath
                 (rangeValues env (fileData (journalState env w backupPath))) w))) l = map_of (fsys w) l"
      by (rule materialize_frame)
    then show ?thesis
      by (simp add: restore_journalState split: option.splits)
  qed
  have "Join env restorePath p \<notin> Join env restorePath ` ?live"
    if "p \<notin> ?live" and "inj_on (Join env restorePath) (insert p ?live)"
    using that by (auto simp: inj_on_def)
  with frame show ?thesis by blast
qed

lemma materialize_error:
  "fst (materialize env restorePath es w) = Some err \<Longrightarrow> \<exists>path. err = IOError path"
proof (induction es arbitrary: w)
  case Nil
  then show ?case by simp
next
  case (Cons e es)
  then show ?case
    by (auto simp: MkdirAll_def WriteFile_def Let_def split: option.splits if_splits prod.splits)
qed

text \<open>
  Claim C8, amended. \<^verbatim>\<open>restore\<close> returns the error "no backup chunks found" exactly when
  the target directory could be created, the listing of the segment files succeeds and
  it is empty. With at least one segment file listed, no such error is returned.
\<close>

theorem restore_not_found_iff:
  "(\<exists>msg. fst (restore env w backupPath restorePath) = Some (NotFoundError msg)) \<longleftrightarrow>
   MkdirAll w restorePath = None \<and> Glob env w (Join env backupPath ''chunk_*.dat'') = Some []"
proof (cases "MkdirAll w restorePath")
  case (Some err)
  then show ?thesis by (auto simp: restore_def MkdirAll_def split: if_splits)
next
  case None
  show ?thesis
  proof (cases "Glob env w (Join env backupPath ''chunk_*.dat'')")
    case gNone: None
    then show ?thesis using None by (simp add: restore_def)
  next
    case (Some files)
    show ?thesis
    proof (cases "files = []")
      case True
      then show ?thesis using None Some by (simp add: restore_def)
    next
      case False
      have "fst (materialize env restorePath es w) \<noteq> Some (NotFoundError msg)" for es msg
        using materialize_error [of env restorePath es w "NotFoundError msg"] by auto
      then show ?thesis using None Some False by (simp add: restore_def)
    qed
  qed
qed

section \<open>Restore with segments that do not decode\<close>

lemma writable_step:
  "writable w \<Longrightarrow> writable (snd (Chtimes (storeFile w name perm data) name t))"
  by (simp add: writable_def)

lemma materialize_step:
  assumes "writable w"
  shows "materialize env restorePath (e # es) w =
           materialize env restorePath es
             (snd (Chtimes (storeFile w (Join env restorePath (Path e)) (Mode e) (Content e))
                     (Join env restorePath (Path e)) (ModTime e)))"
  using assms by (simp add: writable_def MkdirAll_def WriteFile_def Let_def)

lemma step_content:
  "map_option fcontent (map_of (fsys (snd (Chtimes (storeFile w name perm data) name t))) loc) =
     (if loc = name then Some data else map_option fcontent (map_of (fsys w) loc))"
  by (simp add: Chtimes_content storeFile_lookup)

lemma materialize_ok:
  "writable w \<Longrightarrow> fst (materialize env restorePath es w) = None"
proof (induction es arbitrary: w)
  case Nil
  show ?case by simp
next
  case (Cons e es)
  show ?case
    unfolding materialize_step [OF Cons.prems]
    by (rule Cons.IH) (rule writable_step [OF Cons.prems])
qed

lemma materialize_content:
  assumes "writable w"
    and "\<forall>e' \<in> set es. Join env restorePath (Path e') = loc \<longrightarrow> Content e' = c"
    and "(\<exists>e \<in> set es. Join env restorePath (Path e) = loc) \<or>
         map_option fcontent (map_of (fsys w) loc) = Some c"
  shows "map_option fcontent (map_of (fsys (snd (materialize env restorePath es w))) loc) = Some c"
  using assms
proof (induction es arbitrary: w)
  case Nil
  then show ?case by simp
next
  case (Cons e es)
  let ?t = "Join env restorePath (Path e)"
  let ?w = "snd (Chtimes (storeFile w ?t (Mode e) (Content e)) ?t (ModTime e))"
  have wr: "writable ?w" by (rule writable_step [OF Cons.prems(1)])
  have same: "\<forall>e' \<in> set es. Join env restorePath (Path e') = loc \<longrightarrow> Content e' = c"
    using Cons.prems(2) by simp
  have "(\<exists>e \<in> set es. Join env restorePath (Path e) = loc) \<or>
        map_option fcontent (map_of (fsys ?w) loc) = Some c"
  proof (cases "?t = loc")
    case True
    then have "Content e = c" using Cons.prems(2) by simp
    then show ?thesis using True by (simp add: step_content)
  next
    case False
    then show ?thesis using Cons.prems(3) by (auto simp: step_content)
  qed
  then have "map_option fcontent
               (map_of (fsys (snd (materialize env restorePath es ?w))) loc) = Some c"
    by (rule Cons.IH [OF wr same])
  then show ?case
    by (simp only: materialize_step [OF Cons.prems(1)])
qed

lemma rangeValues_complete:
  assumes "rangeVisitsKeys env" and "map_of m k = Some e"
  shows "e \<in> set (rangeValues env m)"
proof -
  have "k \<in> set (keys m)" using assms(2) by (simp add: keys_map_of)
  then have "k \<in> set (shuffle env (keys m))" using assms(1) by (simp add: rangeVisitsKeys_def)
  then show ?thesis using assms(2) by (force simp: rangeValues_def List.map_filter_def)
qed

lemma lastRecord_mem: "lastRecord p rs = Some e \<Longrightarrow> e \<in> set rs"
proof -
  assume "lastRecord p rs = Some e"
  then obtain i where "i < length (rev rs)" and "e = rev rs ! i"
    by (auto simp: lastRecord_def find_Some_iff)
  then have "e \<in> set (rev rs)" by (simp only: nth_mem)
  then show ?thesis by simp
qed

lemma readChunks_fileData:
  "map_of (fileData (readChunks env w files emptyState)) p = Some e \<longleftrightarrow>
   lastRecord p (journalRecords env w files) = Some e \<and> \<not> Deleted e"
proof -
  have "map_of (fileData (readChunks env w files emptyState)) p =
          (case lastRecord p (journalRecords env w files) of
             None \<Rightarrow> map_of (fileData emptyState) p
           | Some e \<Rightarrow> if Deleted e then None else Some e)"
    by (simp only: readChunks_foldl foldl_applyEntry_fileData)
  then show ?thesis
    by (auto simp: emptyState_def split: option.splits if_splits)
qed

lemma restore_live_paths_written:
  assumes wr: "writable w"
    and rv: "rangeVisitsKeys env"
    and gl: "Glob env w (Join env backupPath ''chunk_*.dat'') = Some files"
    and ne: "files \<noteq> []"
    and inj: "inj_on (Join env restorePath) (Path ` set (journalRecords env w (sort files)))"
  shows "fst (restore env w backupPath restorePath) = None \<and>
         (\<forall>p e. lastRecord p (journalRecords env w (sort files)) = Some e \<and> \<not> Deleted e \<longrightarrow>
            map_option fcontent
              (map_of (fsys (snd (restore env w backupPath restorePath))) (Join env restorePath p)) =
            Some (Content e))"
proof -
  let ?J = "journalRecords env w (sort files)"
  let ?m = "fileData (readChunks env w (sort files) emptyState)"
  let ?es = "rangeValues env ?m"
  have mk: "MkdirAll w restorePath = None"
    using wr by (simp add: writable_def MkdirAll_def)
  have res: "restore env w backupPath restorePath = materialize env restorePath ?es w"
    using mk gl ne by (simp add: restore_def)
  have ok: "fst (restore env w backupPath restorePath) = None"
    unfolding res by (rule materialize_ok [OF wr])
  have content: "map_option fcontent
           (map_of (fsys (snd (materialize env restorePath ?es w))) (Join env restorePath p)) =
         Some (Content e)"
    if last: "lastRecord p ?J = Some e" and live: "\<not> Deleted e" for p e
  proof -
    have pe: "Path e = p" using last by (rule lastRecord_Path)
    have eJ: "e \<in> set ?J" using last by (rule lastRecord_mem)
    have "map_of ?m p = Some e" using last live by (simp add: readChunks_fileData)
    then have mem: "e \<in> set ?es" by (rule rangeValues_complete [OF rv])
    have same: "\<forall>e' \<in> set ?es.
        Join env restorePath (Path e') = Join env restorePath p \<longrightarrow> Content e' = Content e"
    proof (intro ballI impI)
      fix e' assume e': "e' \<in> set ?es"
        and eq: "Join env restorePath (Path e') = Join env restorePath p"
      from e' obtain k where k: "map_of ?m k = Some e'" by (auto dest: rangeValues_mem)
      then have l': "lastRecord k ?J = Some e'" by (simp add: readChunks_fileData)
      then have pk: "Path e' = k" by (rule lastRecord_Path)
      have "e' \<in> set ?J" using l' by (rule lastRecord_mem)
      then have "Path e' = Path e"
        using inj eJ eq pe by (auto simp: inj_on_def)
      then have "k = p" using pk pe by simp
      then have "e' = e" using l' last by simp
      then show "Content e' = Content e" by simp
    qed
    have "\<exists>e0 \<in> set ?es. Join env restorePath (Path e0) = Join env restorePath p"
      using mem pe by auto
    then show ?thesis
      using materialize_content [OF wr same] by blast
  qed
  show ?thesis using ok content by (simp add: res)
qed

lemma restore_error:
  assumes "fst (restore env w backupPath restorePath) = Some err"
  shows "(\<exists>path. err = IOError path) \<or> err = ErrBadPattern \<or> err = NotFoundError backupPath"
proof (cases "MkdirAll w restorePath")
  case (Some e)
  then show ?thesis using assms by (auto simp: restore_def MkdirAll_def split: if_splits)
next
  case None
  show ?thesis
  proof (cases "Glob env w (Join env backupPath ''chunk_*.dat'')")
    case gNone: None
    then show ?thesis using assms None by (simp add: restore_def)
  next
    case (Some files)
    show ?thesis
    proof (cases "files = []")
      case True
      then show ?thesis using assms None Some by (simp add: restore_def)
    next
      case False
      then have "fst (materialize env restorePath
                   (rangeValues env (fileData (readChunks env w (sort files) emptyState))) w) = Some err"
        using assms None Some by (simp add: restore_def)
      then show ?thesis by (auto dest: materialize_error)
    qed
  qed
qed

text \<open>
  Claim C4. \<^verbatim>\<open>restore\<close> never returns the error of a segment that does not decode: such
  a segment is skipped. When the segment files are listed and no call that writes the
  target fails, it returns no error, whatever segments fail to decode, and every path
  that is live in the fold of the segments that decode is restored with the content of
  its last record (the paths of the journal naming distinct files).
\<close>

theorem restore_skips_undecodable:
  "(\<forall>msg. fst (restore env w backupPath restorePath) \<noteq> Some (DecodeError msg)) \<and>
   (writable w \<and> rangeVisitsKeys env \<and>
    Glob env w (Join env backupPath ''chunk_*.dat'') = Some files \<and> files \<noteq> [] \<and>
    inj_on (Join env restorePath) (Path ` set (journalRecords env w (sort files))) \<longrightarrow>
      fst (restore env w backupPath restorePath) = None \<and>
      (\<forall>p e. lastRecord p (journalRecords env w (sort files)) = Some e \<and> \<not> Deleted e \<longrightarrow>
         map_option fcontent
           (map_of (fsys (snd (restore env w backupPath restorePath))) (Join env restorePath p)) =
         Some (Content e)))"
proof (rule conjI)
  show "\<forall>msg. fst (restore env w backupPath restorePath) \<noteq> Some (DecodeError msg)"
    using restore_error [of env w backupPath restorePath] by auto
next
  show "writable w \<and> rangeVisitsKeys env \<and>
    Glob env w (Join env backupPath ''chunk_*.dat'') = Some files \<and> files \<noteq> [] \<and>
    inj_on (Join env restorePath) (Path ` set (journalRecords env w (sort files))) \<longrightarrow>
      fst (restore env w backupPath restorePath) = None \<and>
      (\<forall>p e. lastRecord p (journalRecords env w (sort files)) = Some e \<and> \<not> Deleted e \<longrightarrow>
         map_option fcontent
           (map_of (fsys (snd (restore env w backupPath restorePath))) (Join env restorePath p)) =
         Some (Content e))"
  proof (rule impI)
    assume "writable w \<and> rangeVisitsKeys env \<and>
      Glob env w (Join env backupPath ''chunk_*.dat'') = Some files \<and> files \<noteq> [] \<and>
      inj_on (Join env restorePath) (Path ` set (journalRecords env w (sort files)))"
    then have h: "writable w" "rangeVisitsKeys env"
      "Glob env w (Join env backupPath ''chunk_*.dat'') = Some files" "files \<noteq> []"
      "inj_on (Join env restorePath) (Path ` set (journalRecords env w (sort files)))"
      by simp_all
    show "fst (restore env w backupPath restorePath) = None \<and>
      (\<forall>p e. lastRecord p (journalRecords env w (sort files)) = Some e \<and> \<not> Deleted e \<longrightarrow>
         map_option fcontent
           (map_of (fsys (snd (restore env w backupPath restorePath))) (Join env restorePath p)) =
         Some (Content e))"
      by (rule restore_live_paths_written [OF h])
  qed
qed

section \<open>The differ: errors and repeated calls\<close>

lemma putAll_Cons: "putAll m ((r, h) # ps) = putAll (AList.update r h m) ps"
  by (simp add: putAll_def)

lemma map_of_putAll:
  "distinct (map fst ps) \<Longrightarrow>
   map_of (putAll m ps) k = (case map_of ps k of None \<Rightarrow> map_of m k | Some h \<Rightarrow> Some h)"
proof (induction ps arbitrary: m)
  case Nil
  show ?case by (simp add: putAll_def)
next
  case (Cons rh ps)
  obtain r h where rh: "rh = (r, h)" by (cases rh)
  have d: "distinct (map fst ps)" and nin: "r \<notin> fst ` set ps"
    using Cons.prems rh by auto
  have none: "map_of ps r = None" using nin by (simp add: map_of_eq_None_iff)
  show ?case
    using Cons.IH [OF d, of "AList.update r h m"] none
    by (auto simp: rh putAll_Cons AList.update_conv' split: option.splits)
qed

lemma visit_Inr:
  assumes "visit env w watchPath snapshot s item = Inr s'"
  shows "werr item = None \<and>
         (case relHash env w watchPath item of
            None \<Rightarrow> wisDir item \<and> s' = s
          | Some (r, h) \<Rightarrow> current s' = AList.update r h (current s))"
  using assms
  by (auto simp: visit_def relHash_def split: option.splits sum.splits if_splits)

lemma visit_unchanged:
  assumes "werr item = None"
    and "relHash env w watchPath item = Some (r, h)"
    and "map_of snapshot r = Some h"
  shows "visit env w watchPath snapshot s item =
           Inr \<lparr>current = AList.update r h (current s), changes = changes s\<rparr>"
  using assms
  by (auto simp: visit_def relHash_def split: option.splits sum.splits if_splits)

lemma visit_dir:
  assumes "werr item = None" and "wisDir item"
  shows "visit env w watchPath snapshot s item = Inr s"
  using assms by (simp add: visit_def)

lemma walk_Inr:
  "walk env w watchPath snapshot items s = Inr s' \<Longrightarrow>
   list_all (scanned env w watchPath) items \<and>
   current s' = putAll (current s) (List.map_filter (relHash env w watchPath) items)"
proof (induction items arbitrary: s)
  case Nil
  then show ?case by (simp add: putAll_def List.map_filter_simps)
next
  case (Cons item items)
  from Cons.prems obtain s1 where v: "visit env w watchPath snapshot s item = Inr s1"
    and rest: "walk env w watchPath snapshot items s1 = Inr s'"
    by (auto split: sum.splits)
  note ih = Cons.IH [OF rest]
  note vi = visit_Inr [OF v]
  show ?case
  proof (cases "relHash env w watchPath item")
    case None
    then show ?thesis using ih vi
      by (simp add: scanned_def List.map_filter_simps)
  next
    case (Some rh)
    obtain r h where rh: "rh = (r, h)" by (cases rh)
    show ?thesis using ih vi Some rh
      by (simp add: scanned_def List.map_filter_simps putAll_Cons)
  qed
qed

lemma walk_unchanged:
  "list_all (scanned env w watchPath) items \<Longrightarrow>
   \<forall>(r, h) \<in> set (List.map_filter (relHash env w watchPath) items). map_of snapshot r = Some h \<Longrightarrow>
   walk env w watchPath snapshot items s =
     Inr \<lparr>current = putAll (current s) (List.map_filter (relHash env w watchPath) items),
          changes = changes s\<rparr>"
proof (induction items arbitrary: s)
  case Nil
  show ?case by (simp add: putAll_def List.map_filter_simps)
next
  case (Cons item items)
  have sc: "scanned env w watchPath item" and scs: "list_all (scanned env w watchPath) items"
    using Cons.prems(1) by simp_all
  show ?case
  proof (cases "relHash env w watchPath item")
    case None
    then have dir: "wisDir item" and ok: "werr item = None" using sc by (simp_all add: scanned_def)
    have rest: "\<forall>(r, h) \<in> set (List.map_filter (relHash env w watchPath) items).
                  map_of snapshot r = Some h"
      using Cons.prems(2) None by (simp add: List.map_filter_simps)
    show ?thesis
      using Cons.IH [OF scs rest, of s] None
      by (simp add: visit_dir [OF ok dir] List.map_filter_simps)
  next
    case (Some rh)
    obtain r h where rh: "rh = (r, h)" by (cases rh)
    have ok: "werr item = None" using sc by (simp add: scanned_def)
    have here: "map_of snapshot r = Some h"
      using Cons.prems(2) Some rh by (simp add: List.map_filter_simps)
    have rest: "\<forall>(r, h) \<in> set (List.map_filter (relHash env w watchPath) items).
                  map_of snapshot r = Some h"
      using Cons.prems(2) Some by (simp add: List.map_filter_simps)
    have v: "visit env w watchPath snapshot s item =
               Inr \<lparr>current = AList.update r h (current s), changes = changes s\<rparr>"
      using Some rh by (intro visit_unchanged [OF ok _ here]) simp
    show ?thesis
      using Cons.IH [OF scs rest, of "\<lparr>current = AList.update r h (current s), changes = changes s\<rparr>"]
        Some rh
      by (simp add: v List.map_filter_simps putAll_Cons)
  qed
qed

lemma map_of_copy_fold:
  "map_of (foldl (\<lambda>m k. case map_of src k of None \<Rightarrow> m | Some v \<Rightarrow> AList.update k v m) dst ks) k =
     (if k \<in> set ks then (case map_of src k of None \<Rightarrow> map_of dst k | Some v \<Rightarrow> Some v)
      else map_of dst k)"
  by (induction ks arbitrary: dst) (auto simp: AList.update_conv' split: option.splits)

lemma map_of_mapsCopy:
  assumes "rangeVisitsKeys env"
  shows "map_of (mapsCopy env dst src) k =
           (case map_of src k of None \<Rightarrow> map_of dst k | Some v \<Rightarrow> Some v)"
proof -
  have "k \<in> set (shuffle env (keys src)) \<longleftrightarrow> map_of src k \<noteq> None"
    using assms by (simp add: rangeVisitsKeys_def keys_map_of)
  then show ?thesis
    by (auto simp: mapsCopy_def map_of_copy_fold split: option.splits)
qed

lemma map_of_drop_fold:
  "map_of (foldl (\<lambda>m oldPath. if map_of cur oldPath = None then AList.delete oldPath m else m) m ks) k =
     (if k \<in> set ks \<and> map_of cur k = None then None else map_of m k)"
  by (induction ks arbitrary: m) (auto simp: AList.delete_conv')

lemma map_of_dropAbsent:
  assumes "rangeVisitsKeys env"
  shows "map_of (dropAbsent env snapshot cur) k =
           (if map_of cur k = None then None else map_of snapshot k)"
proof -
  have "k \<in> set (shuffle env (keys snapshot)) \<longleftrightarrow> map_of snapshot k \<noteq> None"
    using assms by (simp add: rangeVisitsKeys_def keys_map_of)
  then show ?thesis
    by (auto simp: dropAbsent_def map_of_drop_fold)
qed

lemma map_of_new_snapshot:
  assumes "rangeVisitsKeys env"
  shows "map_of (dropAbsent env (mapsCopy env snapshot cur) cur) = map_of cur"
  by (rule ext) (auto simp: map_of_dropAbsent [OF assms] map_of_mapsCopy [OF assms] split: option.splits)

text \<open>
  Claim C7. When \<^verbatim>\<open>detectChanges\<close> returns an error, it returns no change record and
  the snapshot is the one it was given.
\<close>

theorem detectChanges_error_atomic:
  assumes "snd (fst (detectChanges env w watchPath snapshot)) = Some err"
  shows "fst (fst (detectChanges env w watchPath snapshot)) = [] \<and>
         snd (detectChanges env w watchPath snapshot) = snapshot"
  using assms by (simp add: detectChanges_def split: sum.splits)

text \<open>
  Claim C5. After a call of \<^verbatim>\<open>detectChanges\<close>, a second call on the same root and the
  same file system, with the snapshot the first call left, returns an empty change list;
  and when the first call returns no error, the snapshot it leaves maps exactly the
  relative paths of the files present to their fingerprints. (A walk visits a file once,
  so the relative paths of a walk are distinct, and a \<^verbatim>\<open>range\<close> visits every key.)
\<close>

theorem detectChanges_twice:
  assumes rv: "rangeVisitsKeys env"
    and dist: "distinct (map fst (relHashes env w watchPath))"
    and first: "detectChanges env w watchPath snapshot = (r1, snapshot1)"
  shows "fst (fst (detectChanges env w watchPath snapshot1)) = [] \<and>
         (snd r1 = None \<longrightarrow> map_of snapshot1 = map_of (relHashes env w watchPath))"
proof (cases "walk env w watchPath snapshot (WalkDir env w watchPath) \<lparr>current = [], changes = []\<rparr>")
  case (Inl err)
  then have "snapshot1 = snapshot" and "snd r1 = Some err"
    using first by (auto simp: detectChanges_def)
  then show ?thesis using Inl by (simp add: detectChanges_def)
next
  case (Inr s1)
  let ?items = "WalkDir env w watchPath"
  let ?ps = "List.map_filter (relHash env w watchPath) ?items"
  have ps: "?ps = relHashes env w watchPath" by (simp add: relHashes_def)
  from walk_Inr [OF Inr] have sc: "list_all (scanned env w watchPath) ?items"
    and cur: "current s1 = putAll [] ?ps" by simp_all
  have snap1: "snapshot1 = dropAbsent env (mapsCopy env snapshot (current s1)) (current s1)"
    using first Inr by (auto simp: detectChanges_def)
  have m1: "map_of snapshot1 = map_of (current s1)"
    unfolding snap1 by (rule map_of_new_snapshot [OF rv])
  have mcur: "map_of (current s1) k = map_of ?ps k" for k
    using dist by (simp add: cur ps map_of_putAll split: option.splits)
  have known: "\<forall>(r, h) \<in> set ?ps. map_of snapshot1 r = Some h"
    using dist by (auto simp: m1 mcur ps)
  have second: "walk env w watchPath snapshot1 ?items \<lparr>current = [], changes = []\<rparr> =
                  Inr \<lparr>current = putAll [] ?ps, changes = []\<rparr>"
    using walk_unchanged [OF sc known, of "\<lparr>current = [], changes = []\<rparr>"] by simp
  have nodel: "filter (\<lambda>oldPath. map_of (putAll [] ?ps) oldPath = None) (shuffle env (keys snapshot1)) = []"
  proof -
    have "map_of (putAll [] ?ps) k \<noteq> None" if "k \<in> set (shuffle env (keys snapshot1))" for k
    proof -
      have "k \<in> set (keys snapshot1)" using that rv by (simp add: rangeVisitsKeys_def)
      then have "map_of snapshot1 k \<noteq> None" by (simp add: keys_map_of)
      then show ?thesis by (simp add: m1 cur)
    qed
    then show ?thesis by (simp add: filter_empty_conv)
  qed
  have "fst (fst (detectChanges env w watchPath snapshot1)) = []"
    by (simp add: detectChanges_def second nodel)
  moreover have "map_of snapshot1 = map_of (relHashes env w watchPath)"
    using m1 mcur ps by (auto intro: ext)
  ultimately show ?thesis by simp
qed

section \<open>Segment file names and their order\<close>

lemma isDigit_digitChar: "d < 10 \<Longrightarrow> isDigit (digitChar d)"
  by (simp add: isDigit_def digitChar_def)

lemma digitVal_digitChar: "d < 10 \<Longrightarrow> digitVal (digitChar d) = d"
  by (simp add: digitVal_def digitChar_def)

lemma isDigit_less: "isDigit a \<Longrightarrow> isDigit b \<Longrightarrow> a < b \<longleftrightarrow> digitVal a < digitVal b"
  by (auto simp: isDigit_def digitVal_def less_char_def)

lemma isDigit_eq: "isDigit a \<Longrightarrow> isDigit b \<Longrightarrow> a = b \<longleftrightarrow> digitVal a = digitVal b"
proof -
  assume a: "isDigit a" and b: "isDigit b"
  have "a = b \<longleftrightarrow> (of_char a :: nat) = of_char b" by simp
  also have "\<dots> \<longleftrightarrow> digitVal a = digitVal b"
    using a b unfolding isDigit_def digitVal_def by arith
  finally show ?thesis .
qed

lemma radix_less:
  fixes a b x y k :: nat
  assumes "x < k" and "y < k"
  shows "a * k + x < b * k + y \<longleftrightarrow> a < b \<or> (a = b \<and> x < y)"
proof (cases "a < b")
  case True
  then have "(a + 1) * k \<le> b * k" by (intro mult_le_mono1) simp
  then have "a * k + x < b * k + y" using assms(1) by (simp add: algebra_simps)
  then show ?thesis using True by simp
next
  case False
  show ?thesis
  proof (cases "a = b")
    case True
    then show ?thesis by simp
  next
    case ne: False
    then have gt: "b < a" using False by simp
    then have "(b + 1) * k \<le> a * k" by (intro mult_le_mono1) simp
    then have "b * k + y < a * k + x" using assms(2) by (simp add: algebra_simps)
    then show ?thesis using gt by simp
  qed
qed

lemma radix_eq:
  fixes a b x y k :: nat
  assumes "x < k" and "y < k"
  shows "a * k + x = b * k + y \<longleftrightarrow> a = b \<and> x = y"
proof
  assume eq: "a * k + x = b * k + y"
  have "\<not> a * k + x < b * k + y" and "\<not> b * k + y < a * k + x" using eq by simp_all
  then have "\<not> (a < b \<or> (a = b \<and> x < y))" and "\<not> (b < a \<or> (b = a \<and> y < x))"
    using radix_less [OF assms, of a b] radix_less [OF assms(2) assms(1), of b a] by simp_all
  then show "a = b \<and> x = y" by auto
next
  assume "a = b \<and> x = y"
  then show "a * k + x = b * k + y" by simp
qed

lemma isDigit_bound: "isDigit a \<Longrightarrow> digitVal a < 10"
  by (auto simp: isDigit_def digitVal_def)

lemma foldl_decimal_shift:
  "foldl (\<lambda>v c. 10 * v + digitVal c) a s = a * 10 ^ length s + decimalValue s"
proof (induction s arbitrary: a rule: rev_induct)
  case Nil
  show ?case by (simp add: decimalValue_def)
next
  case (snoc c s)
  show ?case
    using snoc.IH [of a] by (simp add: decimalValue_def algebra_simps)
qed

lemma decimalValue_Cons:
  "decimalValue (c # s) = digitVal c * 10 ^ length s + decimalValue s"
  using foldl_decimal_shift [of "digitVal c" s] by (simp add: decimalValue_def)

lemma decimalValue_snoc: "decimalValue (s @ [c]) = 10 * decimalValue s + digitVal c"
  by (simp add: decimalValue_def)

lemma decimalValue_bound: "list_all isDigit s \<Longrightarrow> decimalValue s < 10 ^ length s"
proof (induction s rule: rev_induct)
  case Nil
  show ?case by (simp add: decimalValue_def)
next
  case (snoc c s)
  then have "decimalValue s < 10 ^ length s" and "digitVal c < 10"
    by (simp_all add: isDigit_bound)
  then have "10 * decimalValue s + digitVal c < 10 * 10 ^ length s" by linarith
  then show ?case by (simp add: decimalValue_snoc)
qed

lemma decimal_digits: "list_all isDigit (decimal n)"
proof (induction n rule: decimal.induct)
  case (1 n)
  show ?case
  proof (cases "n < 10")
    case True
    then show ?thesis by (subst decimal.simps) (simp add: isDigit_digitChar)
  next
    case False
    then show ?thesis
      using "1.IH" by (subst decimal.simps) (simp add: isDigit_digitChar)
  qed
qed

lemma decimalValue_decimal: "decimalValue (decimal n) = n"
proof (induction n rule: decimal.induct)
  case (1 n)
  show ?case
  proof (cases "n < 10")
    case True
    then show ?thesis
      by (subst decimal.simps) (simp add: decimalValue_def digitVal_digitChar)
  next
    case False
    then show ?thesis
      using "1.IH" by (subst decimal.simps) (simp add: decimalValue_snoc digitVal_digitChar)
  qed
qed

lemma digits_less_append:
  assumes "length xs = length ys" and "list_all isDigit xs" and "list_all isDigit ys"
  shows "(xs @ u < ys @ v \<longleftrightarrow>
            decimalValue xs < decimalValue ys \<or> (decimalValue xs = decimalValue ys \<and> u < v)) \<and>
         (xs = ys \<longleftrightarrow> decimalValue xs = decimalValue ys)"
  using assms
proof (induction xs ys rule: list_induct2)
  case Nil
  show ?case by (simp add: decimalValue_def)
next
  case (Cons a xs b ys)
  have da: "isDigit a" and db: "isDigit b" and dx: "list_all isDigit xs" and dy: "list_all isDigit ys"
    using Cons.prems by simp_all
  note ih = Cons.IH [OF dx dy]
  have bx: "decimalValue xs < 10 ^ length xs" by (rule decimalValue_bound [OF dx])
  have by': "decimalValue ys < 10 ^ length xs"
    using decimalValue_bound [OF dy] Cons.hyps by simp
  let ?k = "(10::nat) ^ length xs"
  note lt = radix_less [OF bx by', of "digitVal a" "digitVal b"]
  note eq = radix_eq [OF bx by', of "digitVal a" "digitVal b"]
  have len: "length ys = length xs" using Cons.hyps by simp
  show ?case
    using ih lt eq
    by (simp add: decimalValue_Cons len isDigit_less [OF da db] isDigit_eq [OF da db]) blast
qed

lemma decimalValue_zeros: "decimalValue (replicate k CHR ''0'' @ s) = decimalValue s"
proof -
  have "foldl (\<lambda>v c. 10 * v + digitVal c) 0 (replicate k CHR ''0'') = 0"
    by (induction k) (simp_all add: digitVal_def)
  then show ?thesis by (simp add: decimalValue_def)
qed

lemma length_decimal_1000: "n < 1000 \<Longrightarrow> length (decimal n) \<le> 3"
proof -
  assume n: "n < 1000"
  have one: "length (decimal m) = 1" if "m < 10" for m
    using that by (subst decimal.simps) simp
  have two: "length (decimal m) \<le> 2" if "m < 100" for m
  proof (cases "m < 10")
    case True
    then show ?thesis by (simp add: one)
  next
    case False
    have "m div 10 < 10" using that by simp
    then show ?thesis using False by (subst decimal.simps) (simp add: one)
  qed
  show ?thesis
  proof (cases "n < 10")
    case True
    then show ?thesis by (simp add: one)
  next
    case False
    have "n div 10 < 100" using n by simp
    then have "length (decimal (n div 10)) \<le> 2" by (rule two)
    then show ?thesis using False by (subst decimal.simps) simp
  qed
qed

lemma zeroPad3:
  assumes "n < 1000"
  shows "length (zeroPad 3 (decimal n)) = 3" and "list_all isDigit (zeroPad 3 (decimal n))"
    and "decimalValue (zeroPad 3 (decimal n)) = n"
proof -
  show "length (zeroPad 3 (decimal n)) = 3"
    using length_decimal_1000 [OF assms] by (simp add: zeroPad_def)
  have "isDigit CHR ''0''" by (simp add: isDigit_def)
  then show "list_all isDigit (zeroPad 3 (decimal n))"
    using decimal_digits [of n] by (auto simp: zeroPad_def list_all_iff)
  show "decimalValue (zeroPad 3 (decimal n)) = n"
    by (simp add: zeroPad_def decimalValue_zeros decimalValue_decimal)
qed

lemma chunkName_less:
  assumes t1: "0 \<le> t1" and t2: "0 \<le> t2" and len: "length (fmt_d t1) = length (fmt_d t2)"
    and n1: "0 \<le> n1" "n1 < 1000" and n2: "0 \<le> n2" "n2 < 1000"
  shows "chunkName t1 n1 < chunkName t2 n2 \<longleftrightarrow> (t1, n1) < (t2, n2)"
proof -
  let ?d1 = "decimal (nat t1)" and ?d2 = "decimal (nat t2)"
  let ?p1 = "zeroPad 3 (decimal (nat n1))" and ?p2 = "zeroPad 3 (decimal (nat n2))"
  have m1: "nat n1 < 1000" and m2: "nat n2 < 1000" using n1 n2 by simp_all
  have name1: "chunkName t1 n1 = ''chunk_'' @ ?d1 @ (''_'' @ ?p1 @ ''.dat'')"
    using t1 n1 by (simp add: chunkName_def fmt_d_def fmt_03d_def)
  have name2: "chunkName t2 n2 = ''chunk_'' @ ?d2 @ (''_'' @ ?p2 @ ''.dat'')"
    using t2 n2 by (simp add: chunkName_def fmt_d_def fmt_03d_def)
  have dlen: "length ?d1 = length ?d2"
    using len t1 t2 by (simp add: fmt_d_def)
  have ts: "?d1 @ u < ?d2 @ v \<longleftrightarrow> nat t1 < nat t2 \<or> (nat t1 = nat t2 \<and> u < v)" for u v
    using digits_less_append [OF dlen decimal_digits decimal_digits, of u v]
    by (simp add: decimalValue_decimal)
  have plen: "length ?p1 = length ?p2"
    by (simp add: zeroPad3(1) [OF m1] zeroPad3(1) [OF m2])
  have ns: "?p1 @ u < ?p2 @ u \<longleftrightarrow> nat n1 < nat n2" for u
    using digits_less_append [OF plen zeroPad3(2) [OF m1] zeroPad3(2) [OF m2], of u u]
    by (simp add: zeroPad3(3) [OF m1] zeroPad3(3) [OF m2])
  have pre: "''chunk_'' @ x < ''chunk_'' @ y \<longleftrightarrow> x < y" for x y :: string
    by simp
  have sep: "''_'' @ x < ''_'' @ y \<longleftrightarrow> x < y" for x y :: string
    by simp
  have "chunkName t1 n1 < chunkName t2 n2 \<longleftrightarrow>
          ?d1 @ (''_'' @ ?p1 @ ''.dat'') < ?d2 @ (''_'' @ ?p2 @ ''.dat'')"
    unfolding name1 name2 by (rule pre)
  also have "\<dots> \<longleftrightarrow> nat t1 < nat t2 \<or>
          (nat t1 = nat t2 \<and> ''_'' @ ?p1 @ ''.dat'' < ''_'' @ ?p2 @ ''.dat'')"
    by (rule ts)
  also have "\<dots> \<longleftrightarrow> nat t1 < nat t2 \<or> (nat t1 = nat t2 \<and> nat n1 < nat n2)"
    by (simp only: sep ns)
  also have "\<dots> \<longleftrightarrow> (t1, n1) < (t2, n2)"
    using t1 t2 n1 n2 by auto
  finally show ?thesis .
qed

text \<open>
  Claim C2, amended. For segments whose timestamps are non-negative and have the same
  number of decimal digits and whose sequence numbers are between 0 and 999, sorting the
  file names as strings gives the order of the pairs (timestamp, sequence number).
\<close>

theorem chunk_names_sort_like_segments:
  assumes "uniformSegments width segs"
  shows "sort (map segmentName segs) = map segmentName (sort segs)"
proof (rule properties_for_sort)
  show "mset (map segmentName (sort segs)) = mset (map segmentName segs)" by simp
  have le: "segmentName a \<le> segmentName b" if a: "a \<in> set segs" and b: "b \<in> set segs" and ab: "a \<le> b" for a b
  proof -
    have fa: "0 \<le> fst a" "0 \<le> snd a" "snd a < 1000"
      and fb: "0 \<le> fst b" "0 \<le> snd b" "snd b < 1000"
      and len: "length (fmt_d (fst b)) = length (fmt_d (fst a))"
      using assms a b unfolding uniformSegments_def list_all_iff by auto
    have "segmentName b < segmentName a \<longleftrightarrow> (fst b, snd b) < (fst a, snd a)"
      unfolding segmentName_def
      by (rule chunkName_less [OF fb(1) fa(1) len fb(2) fb(3) fa(2) fa(3)])
    then have "\<not> segmentName b < segmentName a" using ab by (simp add: not_less [symmetric])
    then show ?thesis by simp
  qed
  have "sorted_wrt (\<lambda>a b. segmentName a \<le> segmentName b) (sort segs)"
    by (rule sorted_wrt_mono_rel [where P = "(\<le>)"]) (simp_all add: le)
  then show "sorted (map segmentName (sort segs))"
    by (simp add: sorted_map)
qed

section \<open>The writer packs greedily\<close>

lemma packInv_keep:
  assumes inv: "packInv seen s"
    and cond: "\<not> (currentSize s + entrySize e > chunkSize \<and> length (Entries (currentChunk s)) > 0)"
  shows "packInv (seen @ [e])
           (s\<lparr>currentChunk := \<lparr>Entries = Entries (currentChunk s) @ [e]\<rparr>,
              currentSize := currentSize s + entrySize e\<rparr>)"
proof -
  let ?cur = "currentChunk s"
  let ?cur' = "\<lparr>Entries = Entries ?cur @ [e]\<rparr>"
  let ?ws = "map snd (written s)"
  have size: "currentSize s = segmentSize ?cur" using inv by (simp add: packInv_def)
  have size': "segmentSize ?cur' = segmentSize ?cur + entrySize e"
    by (simp add: segmentSize_def)
  have sb: "softBounded ?cur'"
    using cond size size' by (auto simp: softBounded_def)
  have succ: "successively overflows (?ws @ [?cur'])"
  proof (cases "written s = []")
    case True
    then show ?thesis by simp
  next
    case False
    then have ne: "Entries ?cur \<noteq> []" using inv by (simp add: packInv_def)
    have "successively overflows (?ws @ [?cur])" using inv by (simp add: packInv_def)
    then have "successively overflows ?ws" and "overflows (last ?ws) ?cur"
      using False by (simp_all add: successively_append_iff)
    moreover have "overflows (last ?ws) ?cur'"
      using \<open>overflows (last ?ws) ?cur\<close> ne by (simp add: overflows_def)
    ultimately show ?thesis by (simp add: successively_append_iff)
  qed
  show ?thesis
    using inv sb succ size size' by (simp add: packInv_def)
qed

lemma packInv_flush:
  assumes inv: "packInv seen s"
    and cond: "currentSize s + entrySize e > chunkSize \<and> length (Entries (currentChunk s)) > 0"
  shows "packInv (seen @ [e])
           \<lparr>pworld = w', chunkNum = chunkNum s + 1, currentChunk = \<lparr>Entries = [e]\<rparr>,
            currentSize = entrySize e, written = written s @ [(chunkNum s, currentChunk s)]\<rparr>"
proof -
  let ?cur = "currentChunk s"
  let ?ws = "map snd (written s)"
  have size: "currentSize s = segmentSize ?cur" using inv by (simp add: packInv_def)
  have ov: "overflows ?cur \<lparr>Entries = [e]\<rparr>"
    using cond size by (simp add: overflows_def)
  have "successively overflows (?ws @ [?cur])" using inv by (simp add: packInv_def)
  then have succ: "successively overflows ((?ws @ [?cur]) @ [\<lparr>Entries = [e]\<rparr>])"
    using ov by (subst successively_append_iff) simp
  have sb: "softBounded \<lparr>Entries = [e]\<rparr>" by (simp add: softBounded_def)
  have nums: "map fst (written s) @ [chunkNum s] = map int [0..<Suc (length (written s))]"
    using inv by (simp add: packInv_def)
  show ?thesis
    using inv cond succ sb nums by (simp add: packInv_def segmentSize_def)
qed

lemma packLoop_keep:
  assumes "\<not> (currentSize s + entrySize e > chunkSize \<and> length (Entries (currentChunk s)) > 0)"
  shows "packLoop env backupPath timestamp (e # rest) s =
           packLoop env backupPath timestamp rest
             (s\<lparr>currentChunk := \<lparr>Entries = Entries (currentChunk s) @ [e]\<rparr>,
                currentSize := currentSize s + entrySize e\<rparr>)"
  using assms by auto

lemma packLoop_flush:
  assumes "currentSize s + entrySize e > chunkSize \<and> length (Entries (currentChunk s)) > 0"
  shows "packLoop env backupPath timestamp (e # rest) s =
           (case writeChunk env (pworld s) backupPath timestamp (chunkNum s) (currentChunk s) of
              (Some err, w') \<Rightarrow> (Some err, s\<lparr>pworld := w'\<rparr>)
            | (None, w') \<Rightarrow>
                packLoop env backupPath timestamp rest
                  \<lparr>pworld = w', chunkNum = chunkNum s + 1,
                   currentChunk = \<lparr>Entries = [e]\<rparr>,
                   currentSize = entrySize e,
                   written = written s @ [(chunkNum s, currentChunk s)]\<rparr>)"
  using assms by auto

lemma packLoop_inv:
  "packInv seen s \<Longrightarrow> packLoop env backupPath timestamp rest s = (None, s') \<Longrightarrow>
   packInv (seen @ rest) s'"
proof (induction rest arbitrary: seen s)
  case Nil
  then show ?case by simp
next
  case (Cons e rest)
  show ?case
  proof (cases "currentSize s + entrySize e > chunkSize \<and> length (Entries (currentChunk s)) > 0")
    case True
    obtain r w' where wc:
      "writeChunk env (pworld s) backupPath timestamp (chunkNum s) (currentChunk s) = (r, w')"
      by (cases "writeChunk env (pworld s) backupPath timestamp (chunkNum s) (currentChunk s)")
    note p2 = Cons.prems(2) [unfolded packLoop_flush [OF True]]
    have r: "r = None" using p2 wc by (cases r) simp_all
    let ?s1 = "\<lparr>pworld = w', chunkNum = chunkNum s + 1, currentChunk = \<lparr>Entries = [e]\<rparr>,
               currentSize = entrySize e, written = written s @ [(chunkNum s, currentChunk s)]\<rparr>"
    have run: "packLoop env backupPath timestamp rest ?s1 = (None, s')"
      using p2 wc r by simp
    have "packInv ((seen @ [e]) @ rest) s'"
      by (rule Cons.IH [OF packInv_flush [OF Cons.prems(1) True] run])
    then show ?thesis by simp
  next
    case False
    let ?s1 = "s\<lparr>currentChunk := \<lparr>Entries = Entries (currentChunk s) @ [e]\<rparr>,
                 currentSize := currentSize s + entrySize e\<rparr>"
    have run: "packLoop env backupPath timestamp rest ?s1 = (None, s')"
      using Cons.prems(2) by (simp only: packLoop_keep [OF False])
    have "packInv ((seen @ [e]) @ rest) s'"
      by (rule Cons.IH [OF packInv_keep [OF Cons.prems(1) False] run])
    then show ?thesis by simp
  qed
qed

lemma writeChunk_ok:
  "noWriteFault w \<Longrightarrow>
   fst (writeChunk env w backupPath timestamp num chunk) = None \<and>
   noWriteFault (snd (writeChunk env w backupPath timestamp num chunk))"
  by (simp add: writeChunk_def noWriteFault_def Let_def)

lemma packLoop_ok:
  "noWriteFault (pworld s) \<Longrightarrow>
   fst (packLoop env backupPath timestamp rest s) = None \<and>
   noWriteFault (pworld (snd (packLoop env backupPath timestamp rest s)))"
proof (induction rest arbitrary: s)
  case Nil
  then show ?case by simp
next
  case (Cons e rest)
  obtain r w' where wc:
    "writeChunk env (pworld s) backupPath timestamp (chunkNum s) (currentChunk s) = (r, w')"
    by (cases "writeChunk env (pworld s) backupPath timestamp (chunkNum s) (currentChunk s)")
  have r: "r = None" and w': "noWriteFault w'"
    using writeChunk_ok [OF Cons.prems, of env backupPath timestamp "chunkNum s" "currentChunk s"] wc
    by simp_all
  show ?case
  proof (cases "currentSize s + entrySize e > chunkSize \<and> length (Entries (currentChunk s)) > 0")
    case True
    show ?thesis
      unfolding packLoop_flush [OF True] using wc r w' by (simp add: Cons.IH)
  next
    case False
    show ?thesis
      unfolding packLoop_keep [OF False] using Cons.prems by (simp add: Cons.IH)
  qed
qed

lemma createBackup_ok:
  assumes "noWriteFault w"
  shows "fst (createBackup env w backupPath entries) = None"
proof -
  let ?s0 = "\<lparr>pworld = w, chunkNum = 0, currentChunk = \<lparr>Entries = []\<rparr>, currentSize = 0, written = []\<rparr>"
  let ?ts = "now w div 1000000000"
  obtain r s where run: "packLoop env backupPath ?ts entries ?s0 = (r, s)"
    by (cases "packLoop env backupPath ?ts entries ?s0")
  have "noWriteFault (pworld ?s0)" using assms by simp
  from packLoop_ok [OF this, of env backupPath ?ts entries] run
  have r: "r = None" and ws: "noWriteFault (pworld s)" by simp_all
  obtain r2 w2 where wc: "writeChunk env (pworld s) backupPath ?ts (chunkNum s) (currentChunk s) = (r2, w2)"
    by (cases "writeChunk env (pworld s) backupPath ?ts (chunkNum s) (currentChunk s)")
  have "r2 = None"
    using writeChunk_ok [OF ws, of env backupPath ?ts "chunkNum s" "currentChunk s"] wc by simp
  then show ?thesis
    using run r wc by (simp add: createBackup_def Let_def)
qed

lemma createBackup_inv:
  assumes "createBackup env w backupPath entries = (None, w', segs)"
  shows "concat (map (\<lambda>seg. Entries (snd seg)) segs) = entries \<and>
         map fst segs = map int [0..<length segs] \<and>
         list_all (\<lambda>seg. Entries (snd seg) \<noteq> []) segs \<and>
         list_all softBounded (map snd segs) \<and>
         successively overflows (map snd segs)"
proof -
  let ?s0 = "\<lparr>pworld = w, chunkNum = 0, currentChunk = \<lparr>Entries = []\<rparr>, currentSize = 0, written = []\<rparr>"
  let ?ts = "now w div 1000000000"
  obtain r s where run: "packLoop env backupPath ?ts entries ?s0 = (r, s)"
    by (cases "packLoop env backupPath ?ts entries ?s0")
  have r: "r = None" using assms run by (cases r) (simp_all add: createBackup_def Let_def)
  have inv0: "packInv [] ?s0"
    by (simp add: packInv_def segmentSize_def softBounded_def)
  have inv: "packInv entries s"
    using packLoop_inv [OF inv0, of env backupPath ?ts entries s] run r by simp
  show ?thesis
  proof (cases "length (Entries (currentChunk s)) > 0")
    case True
    obtain r2 w2 where wc: "writeChunk env (pworld s) backupPath ?ts (chunkNum s) (currentChunk s) = (r2, w2)"
      by (cases "writeChunk env (pworld s) backupPath ?ts (chunkNum s) (currentChunk s)")
    have r2: "r2 = None" using assms run r True wc by (cases r2) (simp_all add: createBackup_def Let_def)
    have segs: "segs = written s @ [(chunkNum s, currentChunk s)]"
      using assms run r True wc r2 by (simp add: createBackup_def Let_def)
    have nums: "map fst (written s) @ [chunkNum s] = map int [0..<Suc (length (written s))]"
      using inv by (simp add: packInv_def)
    show ?thesis
      using inv True nums by (simp add: segs packInv_def)
  next
    case False
    then have empty: "Entries (currentChunk s) = []" by simp
    have segs: "segs = written s"
      using assms run r False by (simp add: createBackup_def Let_def)
    have w0: "written s = []" using inv empty by (auto simp: packInv_def)
    show ?thesis
      using inv empty w0 by (simp add: segs packInv_def)
  qed
qed

lemma entrySize_le_sum: "e \<in> set es \<Longrightarrow> entrySize e \<le> sum_list (map entrySize es)"
  by (induction es) auto

lemma entrySize_le_segmentSize: "e \<in> set (Entries c) \<Longrightarrow> entrySize e \<le> segmentSize c"
  by (simp add: segmentSize_def entrySize_le_sum)

lemma softBounded_alone:
  assumes sb: "softBounded c" and ne: "Entries c \<noteq> []"
  shows "(segmentSize c \<le> chunkSize \<or> length (Entries c) = 1) \<and>
         (\<forall>e \<in> set (Entries c). chunkSize < entrySize e \<longrightarrow> Entries c = [e])"
proof -
  have len: "length (Entries c) = 1" if "\<not> segmentSize c \<le> chunkSize"
    using that sb ne by (cases "Entries c") (auto simp: softBounded_def)
  have "Entries c = [e]" if e: "e \<in> set (Entries c)" and big: "chunkSize < entrySize e" for e
  proof -
    have "\<not> segmentSize c \<le> chunkSize"
      using entrySize_le_segmentSize [OF e] big by simp
    then have "length (Entries c) = 1" by (rule len)
    then obtain x where "Entries c = [x]"
      by (cases "Entries c") auto
    then show ?thesis using e by simp
  qed
  then show ?thesis using len by blast
qed

lemma writeChunk_None:
  "writeChunk env w backupPath timestamp num chunk = (None, w') \<Longrightarrow>
   w' = storeSegment env backupPath timestamp w (num, chunk)"
  by (simp add: writeChunk_def storeSegment_def Let_def split: if_splits)

lemma packLoop_world:
  "pworld s = foldl (storeSegment env backupPath timestamp) w0 (written s) \<Longrightarrow>
   packLoop env backupPath timestamp rest s = (None, s') \<Longrightarrow>
   pworld s' = foldl (storeSegment env backupPath timestamp) w0 (written s')"
proof (induction rest arbitrary: s)
  case Nil
  then show ?case by simp
next
  case (Cons e rest)
  show ?case
  proof (cases "currentSize s + entrySize e > chunkSize \<and> length (Entries (currentChunk s)) > 0")
    case True
    obtain r w' where wc:
      "writeChunk env (pworld s) backupPath timestamp (chunkNum s) (currentChunk s) = (r, w')"
      by (cases "writeChunk env (pworld s) backupPath timestamp (chunkNum s) (currentChunk s)")
    note p2 = Cons.prems(2) [unfolded packLoop_flush [OF True]]
    have r: "r = None" using p2 wc by (cases r) simp_all
    let ?s1 = "\<lparr>pworld = w', chunkNum = chunkNum s + 1, currentChunk = \<lparr>Entries = [e]\<rparr>,
               currentSize = entrySize e, written = written s @ [(chunkNum s, currentChunk s)]\<rparr>"
    have run: "packLoop env backupPath timestamp rest ?s1 = (None, s')"
      using p2 wc r by simp
    have w': "w' = storeSegment env backupPath timestamp (pworld s) (chunkNum s, currentChunk s)"
      using wc r by (intro writeChunk_None) simp
    have "pworld ?s1 = foldl (storeSegment env backupPath timestamp) w0 (written ?s1)"
      using Cons.prems(1) w' by simp
    then show ?thesis by (rule Cons.IH [OF _ run])
  next
    case False
    let ?s1 = "s\<lparr>currentChunk := \<lparr>Entries = Entries (currentChunk s) @ [e]\<rparr>,
                 currentSize := currentSize s + entrySize e\<rparr>"
    have run: "packLoop env backupPath timestamp rest ?s1 = (None, s')"
      using Cons.prems(2) by (simp only: packLoop_keep [OF False])
    have "pworld ?s1 = foldl (storeSegment env backupPath timestamp) w0 (written ?s1)"
      using Cons.prems(1) by simp
    then show ?thesis by (rule Cons.IH [OF _ run])
  qed
qed

lemma createBackup_world:
  assumes "createBackup env w backupPath entries = (None, w', segs)"
  shows "w' = foldl (storeSegment env backupPath (now w div 1000000000)) w segs"
proof -
  let ?s0 = "\<lparr>pworld = w, chunkNum = 0, currentChunk = \<lparr>Entries = []\<rparr>, currentSize = 0, written = []\<rparr>"
  let ?ts = "now w div 1000000000"
  obtain r s where run: "packLoop env backupPath ?ts entries ?s0 = (r, s)"
    by (cases "packLoop env backupPath ?ts entries ?s0")
  have r: "r = None" using assms run by (cases r) (simp_all add: createBackup_def Let_def)
  have "pworld ?s0 = foldl (storeSegment env backupPath ?ts) w (written ?s0)" by simp
  from packLoop_world [OF this, of entries s] run r
  have ws: "pworld s = foldl (storeSegment env backupPath ?ts) w (written s)" by simp
  show ?thesis
  proof (cases "length (Entries (currentChunk s)) > 0")
    case True
    obtain r2 w2 where wc: "writeChunk env (pworld s) backupPath ?ts (chunkNum s) (currentChunk s) = (r2, w2)"
      by (cases "writeChunk env (pworld s) backupPath ?ts (chunkNum s) (currentChunk s)")
    have r2: "r2 = None" using assms run r True wc by (cases r2) (simp_all add: createBackup_def Let_def)
    have segs: "segs = written s @ [(chunkNum s, currentChunk s)]" and w': "w' = w2"
      using assms run r True wc r2 by (simp_all add: createBackup_def Let_def)
    have "w2 = storeSegment env backupPath ?ts (pworld s) (chunkNum s, currentChunk s)"
      using wc r2 by (intro writeChunk_None) simp
    then show ?thesis using ws by (simp add: segs w')
  next
    case False
    have "segs = written s" and "w' = pworld s"
      using assms run r False by (simp_all add: createBackup_def Let_def)
    then show ?thesis using ws by simp
  qed
qed

lemma storeSegment_lookup:
  "map_option fcontent (map_of (fsys (storeSegment env backupPath timestamp w seg)) loc) =
     (if loc = segmentFile env backupPath timestamp seg then Some (gobEncode env (snd seg))
      else map_option fcontent (map_of (fsys w) loc))"
  by (simp add: storeSegment_def segmentFile_def storeFile_lookup)

lemma storeSegment_other:
  "loc \<noteq> segmentFile env backupPath timestamp seg \<Longrightarrow>
   map_of (fsys (storeSegment env backupPath timestamp w seg)) loc = map_of (fsys w) loc"
  by (simp add: storeSegment_def segmentFile_def storeFile_lookup)

lemma foldl_storeSegment_other:
  "loc \<notin> segmentFile env backupPath timestamp ` set segs \<Longrightarrow>
   map_of (fsys (foldl (storeSegment env backupPath timestamp) w segs)) loc = map_of (fsys w) loc"
  by (induction segs arbitrary: w) (simp_all add: storeSegment_other)

lemma foldl_storeSegment_content:
  assumes "distinct (map (segmentFile env backupPath timestamp) segs)" and "seg \<in> set segs"
  shows "map_option fcontent
           (map_of (fsys (foldl (storeSegment env backupPath timestamp) w segs))
              (segmentFile env backupPath timestamp seg)) = Some (gobEncode env (snd seg))"
  using assms
proof (induction segs arbitrary: w)
  case Nil
  then show ?case by simp
next
  case (Cons a segs)
  show ?case
  proof (cases "seg \<in> set segs")
    case True
    then show ?thesis using Cons.IH Cons.prems by simp
  next
    case False
    then have a: "a = seg" using Cons.prems(2) by simp
    have "segmentFile env backupPath timestamp seg \<notin> segmentFile env backupPath timestamp ` set segs"
      using Cons.prems(1) a by simp
    then have "map_of (fsys (foldl (storeSegment env backupPath timestamp)
                  (storeSegment env backupPath timestamp w seg) segs))
                 (segmentFile env backupPath timestamp seg) =
               map_of (fsys (storeSegment env backupPath timestamp w seg))
                 (segmentFile env backupPath timestamp seg)"
      by (rule foldl_storeSegment_other)
    then show ?thesis by (simp add: a storeSegment_lookup)
  qed
qed

lemma fmt_03d_inj:
  assumes "0 \<le> n1" and "0 \<le> n2" and "fmt_03d n1 = fmt_03d n2"
  shows "n1 = n2"
proof -
  have "decimalValue (zeroPad 3 (decimal (nat n1))) = decimalValue (zeroPad 3 (decimal (nat n2)))"
    using assms by (simp add: fmt_03d_def)
  then have "nat n1 = nat n2"
    by (simp add: zeroPad_def decimalValue_zeros decimalValue_decimal)
  then show ?thesis using assms by simp
qed

lemma chunkName_inj:
  assumes "0 \<le> n1" and "0 \<le> n2" and "chunkName t n1 = chunkName t n2"
  shows "n1 = n2"
proof -
  have "fmt_03d n1 @ ''.dat'' = fmt_03d n2 @ ''.dat''"
    using assms(3) by (simp add: chunkName_def)
  then have "fmt_03d n1 = fmt_03d n2" by simp
  then show ?thesis by (rule fmt_03d_inj [OF assms(1) assms(2)])
qed

lemma segment_files_distinct:
  assumes nums: "map fst segs = map int [0..<length segs]"
    and inj: "inj_on (Join env backupPath) ((\<lambda>seg. chunkName timestamp (fst seg)) ` set segs)"
  shows "distinct (map (segmentFile env backupPath timestamp) segs)"
proof -
  have d: "distinct (map fst segs)"
    unfolding nums by (simp add: distinct_map inj_on_def)
  have nonneg: "0 \<le> fst seg" if "seg \<in> set segs" for seg
  proof -
    have "fst seg \<in> set (map fst segs)" using that by simp
    then show ?thesis unfolding nums by auto
  qed
  have "inj_on (segmentFile env backupPath timestamp) (set segs)"
  proof (rule inj_onI)
    fix a b assume a: "a \<in> set segs" and b: "b \<in> set segs"
      and eq: "segmentFile env backupPath timestamp a = segmentFile env backupPath timestamp b"
    have "chunkName timestamp (fst a) = chunkName timestamp (fst b)"
      using inj a b eq by (auto simp: segmentFile_def inj_on_def)
    then have "fst a = fst b"
      by (rule chunkName_inj [OF nonneg [OF a] nonneg [OF b]])
    then show "a = b"
      using d a b by (meson distinct_map inj_onD)
  qed
  moreover have "distinct segs" using d by (simp add: distinct_map)
  ultimately show ?thesis by (simp add: distinct_map)
qed

text \<open>
  Claim C3. \<^verbatim>\<open>createBackup\<close> on the empty list returns no error and leaves the file
  system as it is. It returns no error when no call that creates or writes a segment file
  fails. When it returns no error, the segments it wrote, in the order of their sequence
  numbers 0, 1, 2, ..., hold the input records in input order; no segment is empty; a
  segment exceeds the limit only if it holds a single record, so that a record larger
  than the limit is alone in its segment; and for each two consecutive segments, the
  first record of the second would have pushed the first over the limit. The file system
  it leaves is the one it was given with the file of each segment written in turn: no
  other file is changed, and (the names of the segments joined to distinct paths) the
  file of each segment holds the encoding of its records.
\<close>

theorem createBackup_packs_greedily:
  "createBackup env w backupPath [] = (None, w, []) \<and>
   (noWriteFault w \<longrightarrow> fst (createBackup env w backupPath entries) = None) \<and>
   (createBackup env w backupPath entries = (None, w', segs) \<longrightarrow>
      concat (map (\<lambda>seg. Entries (snd seg)) segs) = entries \<and>
      map fst segs = map int [0..<length segs] \<and>
      (\<forall>seg \<in> set segs.
         Entries (snd seg) \<noteq> [] \<and>
         (segmentSize (snd seg) \<le> chunkSize \<or> length (Entries (snd seg)) = 1) \<and>
         (\<forall>e \<in> set (Entries (snd seg)). chunkSize < entrySize e \<longrightarrow> Entries (snd seg) = [e])) \<and>
      successively overflows (map snd segs) \<and>
      w' = foldl (storeSegment env backupPath (now w div 1000000000)) w segs \<and>
      (\<forall>loc. loc \<notin> segmentFile env backupPath (now w div 1000000000) ` set segs \<longrightarrow>
         map_of (fsys w') loc = map_of (fsys w) loc) \<and>
      (inj_on (Join env backupPath) ((\<lambda>seg. chunkName (now w div 1000000000) (fst seg)) ` set segs) \<longrightarrow>
         (\<forall>seg \<in> set segs.
            map_option fcontent
              (map_of (fsys w') (segmentFile env backupPath (now w div 1000000000) seg)) =
            Some (gobEncode env (snd seg)))))"
proof (intro conjI)
  show "createBackup env w backupPath [] = (None, w, [])"
    by (simp add: createBackup_def)
  show "noWriteFault w \<longrightarrow> fst (createBackup env w backupPath entries) = None"
    by (simp add: createBackup_ok)
  show "createBackup env w backupPath entries = (None, w', segs) \<longrightarrow>
      concat (map (\<lambda>seg. Entries (snd seg)) segs) = entries \<and>
      map fst segs = map int [0..<length segs] \<and>
      (\<forall>seg \<in> set segs.
         Entries (snd seg) \<noteq> [] \<and>
         (segmentSize (snd seg) \<le> chunkSize \<or> length (Entries (snd seg)) = 1) \<and>
         (\<forall>e \<in> set (Entries (snd seg)). chunkSize < entrySize e \<longrightarrow> Entries (snd seg) = [e])) \<and>
      successively overflows (map snd segs) \<and>
      w' = foldl (storeSegment env backupPath (now w div 1000000000)) w segs \<and>
      (\<forall>loc. loc \<notin> segmentFile env backupPath (now w div 1000000000) ` set segs \<longrightarrow>
         map_of (fsys w') loc = map_of (fsys w) loc) \<and>
      (inj_on (Join env backupPath) ((\<lambda>seg. chunkName (now w div 1000000000) (fst seg)) ` set segs) \<longrightarrow>
         (\<forall>seg \<in> set segs.
            map_option fcontent
              (map_of (fsys w') (segmentFile env backupPath (now w div 1000000000) seg)) =
            Some (gobEncode env (snd seg))))"
  proof (rule impI)
    assume run: "createBackup env w backupPath entries = (None, w', segs)"
    let ?ts = "now w div 1000000000"
    note inv = createBackup_inv [OF run]
    note world = createBackup_world [OF run]
    have c1: "concat (map (\<lambda>seg. Entries (snd seg)) segs) = entries" using inv by simp
    have c2: "map fst segs = map int [0..<length segs]" using inv by simp
    have c3: "\<forall>seg \<in> set segs.
         Entries (snd seg) \<noteq> [] \<and>
         (segmentSize (snd seg) \<le> chunkSize \<or> length (Entries (snd seg)) = 1) \<and>
         (\<forall>e \<in> set (Entries (snd seg)). chunkSize < entrySize e \<longrightarrow> Entries (snd seg) = [e])"
    proof
      fix seg assume seg: "seg \<in> set segs"
      have ne: "Entries (snd seg) \<noteq> []" using inv seg by (simp add: list_all_iff)
      have sb: "softBounded (snd seg)" using inv seg by (simp add: list_all_iff)
      show "Entries (snd seg) \<noteq> [] \<and>
         (segmentSize (snd seg) \<le> chunkSize \<or> length (Entries (snd seg)) = 1) \<and>
         (\<forall>e \<in> set (Entries (snd seg)). chunkSize < entrySize e \<longrightarrow> Entries (snd seg) = [e])"
        using ne softBounded_alone [OF sb ne] by simp
    qed
    have c4: "successively overflows (map snd segs)" using inv by simp
    have c6: "\<forall>loc. loc \<notin> segmentFile env backupPath ?ts ` set segs \<longrightarrow>
         map_of (fsys w') loc = map_of (fsys w) loc"
      unfolding world by (simp add: foldl_storeSegment_other)
    have c7: "inj_on (Join env backupPath) ((\<lambda>seg. chunkName ?ts (fst seg)) ` set segs) \<longrightarrow>
         (\<forall>seg \<in> set segs.
            map_option fcontent (map_of (fsys w') (segmentFile env backupPath ?ts seg)) =
            Some (gobEncode env (snd seg)))"
    proof (intro impI ballI)
      fix seg
      assume inj: "inj_on (Join env backupPath) ((\<lambda>seg. chunkName ?ts (fst seg)) ` set segs)"
        and seg: "seg \<in> set segs"
      have d: "distinct (map (segmentFile env backupPath ?ts) segs)"
        by (rule segment_files_distinct [OF c2 inj])
      show "map_option fcontent (map_of (fsys w') (segmentFile env backupPath ?ts seg)) =
            Some (gobEncode env (snd seg))"
        unfolding world by (rule foldl_storeSegment_content [OF d seg])
    qed
    show "concat (map (\<lambda>seg. Entries (snd seg)) segs) = entries \<and>
      map fst segs = map int [0..<length segs] \<and>
      (\<forall>seg \<in> set segs.
         Entries (snd seg) \<noteq> [] \<and>
         (segmentSize (snd seg) \<le> chunkSize \<or> length (Entries (snd seg)) = 1) \<and>
         (\<forall>e \<in> set (Entries (snd seg)). chunkSize < entrySize e \<longrightarrow> Entries (snd seg) = [e])) \<and>
      successively overflows (map snd segs) \<and>
      w' = foldl (storeSegment env backupPath ?ts) w segs \<and>
      (\<forall>loc. loc \<notin> segmentFile env backupPath ?ts ` set segs \<longrightarrow>
         map_of (fsys w') loc = map_of (fsys w) loc) \<and>
      (inj_on (Join env backupPath) ((\<lambda>seg. chunkName ?ts (fst seg)) ` set segs) \<longrightarrow>
         (\<forall>seg \<in> set segs.
            map_option fcontent (map_of (fsys w') (segmentFile env backupPath ?ts seg)) =
            Some (gobEncode env (snd seg))))"
      using c1 c2 c3 c4 world c6 c7 by blast
  qed
qed

section \<open>A segment written and read back\<close>

text \<open>
  What \<^verbatim>\<open>readChunk\<close> returns for the file \<^verbatim>\<open>writeChunk\<close> has just written is what the
  decoder makes of the encoder's bytes: the file is created under the name it is read
  from, truncated, and holds the whole encoding.
\<close>

lemma readChunk_writeChunk:
  assumes wr: "writeChunk env w backupPath timestamp num chunk = (None, w')"
    and rd: "\<not> fault w OpenCall (Join env backupPath (chunkName timestamp num))"
            "\<not> fault w DecodeCall (Join env backupPath (chunkName timestamp num))"
  shows "readChunk env w' (Join env backupPath (chunkName timestamp num)) =
           (case gobDecode env (gobEncode env chunk) of
              None \<Rightarrow> Inl (DecodeError (Join env backupPath (chunkName timestamp num)))
            | Some chunk' \<Rightarrow> Inr chunk')"
proof -
  let ?f = "Join env backupPath (chunkName timestamp num)"
  have w': "w' = storeFile w ?f 438 (gobEncode env chunk)"
    using wr by (simp add: writeChunk_def Let_def split: if_splits)
  show ?thesis
    using rd by (simp add: w' readChunk_def storeFile_lookup split: option.splits)
qed

section \<open>The claims on the example journals\<close>

lemmas example_defs =
  exampleLib_def exampleWorld_def exampleDecode_def plainFile_def liveEntry_def
  deletedEntry_def bytesOf_def zeroTime_def keys_def emptyState_def

lemmas restore_defs =
  restore_def MkdirAll_def readChunk_def applyChunk_def applyEntry_def rangeValues_def
  List.map_filter_simps WriteFile_def storeFile_def Chtimes_def journalState_def
  journalRecords_def decodedChunks_def lastRecord_def

text \<open>
  Claim C1 on the journal that creates \<^verbatim>\<open>file.txt\<close>, tombstones it and recreates it: the
  path is live with the recreated record and \<^verbatim>\<open>restore\<close> writes the recreated content.
  On the journal cut after the tombstone, \<^verbatim>\<open>restore\<close> succeeds and writes no such file.
\<close>

theorem restore_fold_last_writer_wins_witness:
  "map_of (fileData (readChunks exampleLib journal3
      [''bak/chunk_1000_000.dat'', ''bak/chunk_2000_000.dat'', ''bak/chunk_3000_000.dat'']
      emptyState)) ''file.txt'' = Some (liveEntry ''file.txt'' ''recreated'') \<and>
   ''file.txt'' \<notin> set (keys (deletedFiles (readChunks exampleLib journal3
      [''bak/chunk_1000_000.dat'', ''bak/chunk_2000_000.dat'', ''bak/chunk_3000_000.dat'']
      emptyState))) \<and>
   map_option fcontent (map_of (fsys (snd (restore exampleLib journal3 ''bak'' ''out''))) ''out/file.txt'') =
     Some (bytesOf ''recreated'') \<and>
   fst (restore exampleLib journal2 ''bak'' ''out'') = None \<and>
   map_of (fsys (snd (restore exampleLib journal2 ''bak'' ''out''))) ''out/file.txt'' = None"
  using restore_fold_last_writer_wins [of exampleLib journal3
      "[''bak/chunk_1000_000.dat'', ''bak/chunk_2000_000.dat'', ''bak/chunk_3000_000.dat'']"
      "''file.txt''"]
  by (simp add: example_defs restore_defs journal3_def journal2_def)

text \<open>
  Claim C4 on a journal of one well-formed segment and one that does not decode:
  \<^verbatim>\<open>restore\<close> returns no error and writes the file of the well-formed segment.
\<close>

theorem restore_skips_undecodable_witness:
  "writable corruptJournal \<and> rangeVisitsKeys exampleLib \<and>
   Glob exampleLib corruptJournal (Join exampleLib ''bak'' ''chunk_*.dat'') =
     Some [''bak/chunk_1000_000.dat'', ''bak/chunk_2000_000.dat''] \<and>
   readChunk exampleLib corruptJournal ''bak/chunk_2000_000.dat'' = Inl (DecodeError ''bak/chunk_2000_000.dat'') \<and>
   fst (restore exampleLib corruptJournal ''bak'' ''out'') = None \<and>
   map_option fcontent
     (map_of (fsys (snd (restore exampleLib corruptJournal ''bak'' ''out''))) ''out/file.txt'') =
     Some (bytesOf ''original'')"
proof -
  have wr: "writable corruptJournal"
    by (simp add: writable_def corruptJournal_def exampleWorld_def)
  have rv: "rangeVisitsKeys exampleLib"
    by (simp add: rangeVisitsKeys_def exampleLib_def)
  have gl: "Glob exampleLib corruptJournal (Join exampleLib ''bak'' ''chunk_*.dat'') =
     Some [''bak/chunk_1000_000.dat'', ''bak/chunk_2000_000.dat'']"
    by (simp add: example_defs corruptJournal_def)
  have bad: "readChunk exampleLib corruptJournal ''bak/chunk_2000_000.dat'' =
      Inl (DecodeError ''bak/chunk_2000_000.dat'')"
    by (simp add: example_defs restore_defs corruptJournal_def)
  have recs: "journalRecords exampleLib corruptJournal
                (sort [''bak/chunk_1000_000.dat'', ''bak/chunk_2000_000.dat'']) =
              [liveEntry ''file.txt'' ''original'']"
    by (simp add: example_defs restore_defs corruptJournal_def)
  have inj: "inj_on (Join exampleLib ''out'')
     (Path ` set (journalRecords exampleLib corruptJournal
        (sort [''bak/chunk_1000_000.dat'', ''bak/chunk_2000_000.dat''])))"
    unfolding recs by simp
  have last: "lastRecord ''file.txt'' (journalRecords exampleLib corruptJournal
        (sort [''bak/chunk_1000_000.dat'', ''bak/chunk_2000_000.dat''])) =
        Some (liveEntry ''file.txt'' ''original'') \<and> \<not> Deleted (liveEntry ''file.txt'' ''original'')"
    unfolding recs by (simp add: lastRecord_def liveEntry_def)
  have "fst (restore exampleLib corruptJournal ''bak'' ''out'') = None \<and>
     map_option fcontent
       (map_of (fsys (snd (restore exampleLib corruptJournal ''bak'' ''out'')))
          (Join exampleLib ''out'' ''file.txt'')) =
     Some (Content (liveEntry ''file.txt'' ''original''))"
    using restore_skips_undecodable [of exampleLib corruptJournal "''bak''" "''out''"
        "[''bak/chunk_1000_000.dat'', ''bak/chunk_2000_000.dat'']"] wr rv gl inj last
    by blast
  then show ?thesis
    using wr rv gl bad by (simp add: exampleLib_def liveEntry_def)
qed

text \<open>
  Claim C8 as stated fails where the target directory cannot be created: the backup
  directory lists no segment file, and \<^verbatim>\<open>restore\<close> returns the error of
  \<^verbatim>\<open>os.MkdirAll\<close>, not the error "no backup chunks found".
\<close>

theorem restore_not_found_counterexample:
  "\<not> (fst (restore exampleLib blockedTarget ''bak'' ''out'') = Some (NotFoundError ''bak'') \<longleftrightarrow>
      Glob exampleLib blockedTarget (Join exampleLib ''bak'' ''chunk_*.dat'') = Some [])"
  by (simp add: example_defs restore_defs blockedTarget_def)

text \<open>Claim C8, amended, on an empty backup directory.\<close>

theorem restore_not_found_iff_witness:
  "fst (restore exampleLib emptyBackup ''bak'' ''out'') = Some (NotFoundError ''bak'') \<and>
   MkdirAll emptyBackup ''out'' = None \<and>
   Glob exampleLib emptyBackup (Join exampleLib ''bak'' ''chunk_*.dat'') = Some [] \<and>
   fst (restore exampleLib blockedTarget ''bak'' ''out'') = Some (IOError ''out'')"
  using restore_not_found_iff [of exampleLib emptyBackup "''bak''" "''out''"]
  by (simp add: example_defs restore_defs emptyBackup_def blockedTarget_def)

text \<open>
  Claim C9 on a target that already holds files: the file of the tombstoned path and the
  file the journal never mentions are left as they were, the file of the live path is
  overwritten.
\<close>

theorem restore_frame_witness:
  "set (keys (fileData (journalState exampleLib staleTarget ''bak''))) = {''keep.txt''} \<and>
   ''file.txt'' \<in> set (keys (deletedFiles (journalState exampleLib staleTarget ''bak''))) \<and>
   map_of (fsys (snd (restore exampleLib staleTarget ''bak'' ''out''))) ''out/file.txt'' =
     Some (plainFile (bytesOf ''stale'')) \<and>
   map_of (fsys (snd (restore exampleLib staleTarget ''bak'' ''out''))) ''out/other.txt'' =
     Some (plainFile (bytesOf ''unrelated'')) \<and>
   map_option fcontent (map_of (fsys (snd (restore exampleLib staleTarget ''bak'' ''out''))) ''out/keep.txt'') =
     Some (bytesOf ''kept'')"
proof -
  have live: "set (keys (fileData (journalState exampleLib staleTarget ''bak''))) = {''keep.txt''}"
    by (simp add: example_defs restore_defs staleTarget_def)
  have dead: "''file.txt'' \<in> set (keys (deletedFiles (journalState exampleLib staleTarget ''bak'')))"
    by (simp add: example_defs restore_defs staleTarget_def)
  have j: "Join exampleLib ''out'' = (\<lambda>name. ''out/'' @ name)"
    by (simp add: exampleLib_def)
  have a: "map_of (fsys (snd (restore exampleLib staleTarget ''bak'' ''out''))) ''out/other.txt'' =
        map_of (fsys staleTarget) ''out/other.txt''"
    using restore_frame [of "''out/other.txt''" exampleLib "''out''" staleTarget "''bak''" "''other.txt''"]
    by (simp add: live j)
  have b: "map_of (fsys (snd (restore exampleLib staleTarget ''bak'' ''out''))) ''out/file.txt'' =
        map_of (fsys staleTarget) ''out/file.txt''"
    using restore_frame [of "''out/other.txt''" exampleLib "''out''" staleTarget "''bak''" "''file.txt''"]
    by (simp add: live j)
  have c: "map_option fcontent (map_of (fsys (snd (restore exampleLib staleTarget ''bak'' ''out''))) ''out/keep.txt'') =
     Some (bytesOf ''kept'')"
    by (simp add: example_defs restore_defs staleTarget_def)
  show ?thesis
    using live dead a b c by (simp add: staleTarget_def exampleWorld_def)
qed

text \<open>
  Claim C5 on a tree of two files and a snapshot that remembers a file now gone: the
  first call reports three changes and leaves the fingerprints of the two files, the
  second call reports none.
\<close>

theorem detectChanges_twice_witness:
  "rangeVisitsKeys exampleLib \<and>
   distinct (map fst (relHashes exampleLib watchedTree ''src'')) \<and>
   map Path (fst (fst (detectChanges exampleLib watchedTree ''src'' [(''gone.txt'', ''00'')]))) =
     [''a.txt'', ''sub/b.txt'', ''gone.txt''] \<and>
   snd (detectChanges exampleLib watchedTree ''src'' [(''gone.txt'', ''00'')]) =
     [(''a.txt'', ''78''), (''sub/b.txt'', ''79'')] \<and>
   fst (fst (detectChanges exampleLib watchedTree ''src'' [(''a.txt'', ''78''), (''sub/b.txt'', ''79'')])) = [] \<and>
   map_of [(''a.txt'', ''78''), (''sub/b.txt'', ''79'')] = map_of (relHashes exampleLib watchedTree ''src'')"
proof -
  have rv: "rangeVisitsKeys exampleLib"
    by (simp add: rangeVisitsKeys_def exampleLib_def)
  have rh: "relHashes exampleLib watchedTree ''src'' = [(''a.txt'', ''78''), (''sub/b.txt'', ''79'')]"
    by code_simp
  have dist: "distinct (map fst (relHashes exampleLib watchedTree ''src''))"
    unfolding rh by simp
  have first: "detectChanges exampleLib watchedTree ''src'' [(''gone.txt'', ''00'')] =
      (([\<lparr>Path = ''a.txt'', Mode = 420, ModTime = 0, Size = 1, Content = bytesOf ''x'', Deleted = False\<rparr>,
         \<lparr>Path = ''sub/b.txt'', Mode = 420, ModTime = 0, Size = 1, Content = bytesOf ''y'', Deleted = False\<rparr>,
         deletedEntry ''gone.txt''], None),
       [(''a.txt'', ''78''), (''sub/b.txt'', ''79'')])"
    by code_simp
  show ?thesis
    using detectChanges_twice [OF rv dist first] rv dist
    by (simp add: first deletedEntry_def rh)
qed

text \<open>Claim C7 on the tree with a file that cannot be opened.\<close>

theorem detectChanges_error_atomic_witness:
  "snd (fst (detectChanges exampleLib unreadableTree ''src'' [(''gone.txt'', ''00'')])) =
     Some (IOError ''src/sub/b.txt'') \<and>
   fst (fst (detectChanges exampleLib unreadableTree ''src'' [(''gone.txt'', ''00'')])) = [] \<and>
   snd (detectChanges exampleLib unreadableTree ''src'' [(''gone.txt'', ''00'')]) = [(''gone.txt'', ''00'')]"
proof -
  have err: "snd (fst (detectChanges exampleLib unreadableTree ''src'' [(''gone.txt'', ''00'')])) =
     Some (IOError ''src/sub/b.txt'')"
    by code_simp
  show ?thesis
    using detectChanges_error_atomic [OF err] err by simp
qed

text \<open>Evaluating file names.\<close>

lemma digitChar_numerals:
  "digitChar 0 = CHR ''0''" "digitChar 1 = CHR ''1''" "digitChar 2 = CHR ''2''"
  "digitChar 3 = CHR ''3''" "digitChar 4 = CHR ''4''" "digitChar 5 = CHR ''5''"
  "digitChar 6 = CHR ''6''" "digitChar 7 = CHR ''7''" "digitChar 8 = CHR ''8''"
  "digitChar 9 = CHR ''9''" "digitChar (Suc 0) = CHR ''1''"
  by code_simp+

lemma replicate_small: "replicate 2 c = [c, c]" "replicate 3 c = [c, c, c]"
  by (simp_all add: numeral_2_eq_2 numeral_3_eq_3)

lemmas name_defs =
  segmentName_def chunkName_def fmt_d_def fmt_03d_def zeroPad_def decimal.simps
  digitChar_numerals replicate_small

text \<open>
  Claim C2 as stated, for all non-negative timestamps and sequence numbers, fails: \<^verbatim>\<open>chunk_10_000.dat\<close> sorts before \<^verbatim>\<open>chunk_9_000.dat\<close>, and
  \<^verbatim>\<open>chunk_5_1000.dat\<close> before \<^verbatim>\<open>chunk_5_999.dat\<close>.
\<close>

theorem chunk_names_sort_counterexample:
  "sort (map segmentName [(9, 0), (10, 0)]) \<noteq> map segmentName (sort [(9, 0), (10, 0)]) \<and>
   sort (map segmentName [(5, 999), (5, 1000)]) \<noteq> map segmentName (sort [(5, 999), (5, 1000)])"
  by (simp add: name_defs)

text \<open>Claim C2, amended, on three segments of two backup runs.\<close>

theorem chunk_names_sort_like_segments_witness:
  "uniformSegments 10 [(1700000060, 1), (1700000000, 0), (1700000060, 0)] \<and>
   sort (map segmentName [(1700000060, 1), (1700000000, 0), (1700000060, 0)]) =
     [''chunk_1700000000_000.dat'', ''chunk_1700000060_000.dat'', ''chunk_1700000060_001.dat'']"
proof -
  have u: "uniformSegments 10 [(1700000060, 1), (1700000000, 0), (1700000060, 0)]"
    by (simp add: uniformSegments_def name_defs)
  have "map segmentName (sort [(1700000060, 1), (1700000000, 0), (1700000060, 0)]) =
     [''chunk_1700000000_000.dat'', ''chunk_1700000060_000.dat'', ''chunk_1700000060_001.dat'']"
    by (simp add: name_defs)
  then show ?thesis
    using chunk_names_sort_like_segments [OF u] u by simp
qed

text \<open>
  Claim C3 on two records of 2 MiB, one of 10 MiB and a small one: the first two share
  segment 0, the large one is alone in segment 1, the last one is in segment 2; the files
  of the segments hold their encodings, and there is no file of a segment 3.
\<close>

lemmas backup_defs =
  createBackup_def writeChunk_def storeFile_def entrySize_def chunkSize_def sizedEntry_def
  mixedEntries_def emptyBackup_def

lemma mixed_run:
  "fst (createBackup exampleLib emptyBackup ''bak'' mixedEntries) = None \<and>
   snd (snd (createBackup exampleLib emptyBackup ''bak'' mixedEntries)) =
     [(0, \<lparr>Entries = [sizedEntry ''a'' (2 * 1024 * 1024), sizedEntry ''b'' (2 * 1024 * 1024)]\<rparr>),
      (1, \<lparr>Entries = [sizedEntry ''big'' (10 * 1024 * 1024)]\<rparr>),
      (2, \<lparr>Entries = [sizedEntry ''c'' 100]\<rparr>)] \<and>
   keys (fsys (fst (snd (createBackup exampleLib emptyBackup ''bak'' mixedEntries)))) =
     [''bak/chunk_1700000000_000.dat'', ''bak/chunk_1700000000_001.dat'', ''bak/chunk_1700000000_002.dat'']"
  by (simp add: backup_defs example_defs name_defs Let_def)

lemma example_clock: "now emptyBackup div 1000000000 = 1700000000"
  by (simp add: emptyBackup_def exampleWorld_def)

lemma example_segment_files:
  "segmentFile exampleLib ''bak'' 1700000000 (0, c) = ''bak/chunk_1700000000_000.dat''"
  "segmentFile exampleLib ''bak'' 1700000000 (1, c) = ''bak/chunk_1700000000_001.dat''"
  "segmentFile exampleLib ''bak'' 1700000000 (2, c) = ''bak/chunk_1700000000_002.dat''"
  by (simp_all add: segmentFile_def exampleLib_def name_defs)

lemma example_encodings:
  "gobEncode exampleLib \<lparr>Entries = [sizedEntry ''a'' m, sizedEntry ''b'' n]\<rparr> = bytesOf ''ab''"
  "gobEncode exampleLib \<lparr>Entries = [sizedEntry ''big'' m]\<rparr> = bytesOf ''big''"
  by (simp_all add: exampleLib_def sizedEntry_def bytesOf_def)

theorem createBackup_packs_greedily_witness:
  "noWriteFault emptyBackup \<and>
   createBackup exampleLib emptyBackup ''bak'' [] = (None, emptyBackup, []) \<and>
   fst (createBackup exampleLib emptyBackup ''bak'' mixedEntries) = None \<and>
   map (\<lambda>seg. (fst seg, map Path (Entries (snd seg))))
     (snd (snd (createBackup exampleLib emptyBackup ''bak'' mixedEntries))) =
     [(0, [''a'', ''b'']), (1, [''big'']), (2, [''c''])] \<and>
   concat (map (\<lambda>seg. Entries (snd seg))
     (snd (snd (createBackup exampleLib emptyBackup ''bak'' mixedEntries)))) = mixedEntries \<and>
   successively overflows (map snd (snd (snd (createBackup exampleLib emptyBackup ''bak'' mixedEntries)))) \<and>
   inj (Join exampleLib ''bak'') \<and>
   map_option fcontent
     (map_of (fsys (fst (snd (createBackup exampleLib emptyBackup ''bak'' mixedEntries))))
        ''bak/chunk_1700000000_000.dat'') = Some (bytesOf ''ab'') \<and>
   map_option fcontent
     (map_of (fsys (fst (snd (createBackup exampleLib emptyBackup ''bak'' mixedEntries))))
        ''bak/chunk_1700000000_001.dat'') = Some (bytesOf ''big'') \<and>
   map_of (fsys (fst (snd (createBackup exampleLib emptyBackup ''bak'' mixedEntries))))
        ''bak/chunk_1700000000_003.dat'' = None"
proof -
  let ?r = "createBackup exampleLib emptyBackup ''bak'' mixedEntries"
  let ?s0 = "(0::int, \<lparr>Entries = [sizedEntry ''a'' (2 * 1024 * 1024), sizedEntry ''b'' (2 * 1024 * 1024)]\<rparr>)"
  let ?s1 = "(1::int, \<lparr>Entries = [sizedEntry ''big'' (10 * 1024 * 1024)]\<rparr>)"
  let ?s2 = "(2::int, \<lparr>Entries = [sizedEntry ''c'' 100]\<rparr>)"
  have nf: "noWriteFault emptyBackup"
    by (simp add: noWriteFault_def emptyBackup_def exampleWorld_def)
  have empty: "createBackup exampleLib emptyBackup ''bak'' [] = (None, emptyBackup, [])"
    by (simp add: createBackup_def)
  note t = createBackup_packs_greedily
    [of exampleLib emptyBackup "''bak''" mixedEntries "fst (snd ?r)" "snd (snd ?r)"]
  have ok: "fst ?r = None" using t nf by blast
  then have run: "?r = (None, fst (snd ?r), snd (snd ?r))"
    by (metis prod.collapse)
  have segs: "snd (snd ?r) = [?s0, ?s1, ?s2]"
    using mixed_run by simp
  have facts: "concat (map (\<lambda>seg. Entries (snd seg)) (snd (snd ?r))) = mixedEntries \<and>
               successively overflows (map snd (snd (snd ?r)))"
    using t run by blast
  have names: "map (\<lambda>seg. (fst seg, map Path (Entries (snd seg)))) (snd (snd ?r)) =
     [(0, [''a'', ''b'']), (1, [''big'']), (2, [''c''])]"
    unfolding segs by (simp add: sizedEntry_def)
  have inj: "inj (Join exampleLib ''bak'')"
    by (simp add: exampleLib_def inj_on_def)
  then have inj_on: "inj_on (Join exampleLib ''bak'')
      ((\<lambda>seg. chunkName (now emptyBackup div 1000000000) (fst seg)) ` set (snd (snd ?r)))"
    by (rule inj_on_subset) simp
  have stored: "\<forall>seg \<in> set (snd (snd ?r)).
      map_option fcontent (map_of (fsys (fst (snd ?r)))
        (segmentFile exampleLib ''bak'' (now emptyBackup div 1000000000) seg)) =
      Some (gobEncode exampleLib (snd seg))"
    using t run inj_on by blast
  have frame: "\<forall>loc. loc \<notin> segmentFile exampleLib ''bak'' (now emptyBackup div 1000000000) `
        set (snd (snd ?r)) \<longrightarrow>
      map_of (fsys (fst (snd ?r))) loc = map_of (fsys emptyBackup) loc"
    using t run by blast
  have m0: "?s0 \<in> set (snd (snd ?r))" and m1: "?s1 \<in> set (snd (snd ?r))"
    unfolding segs by simp_all
  have f0: "map_option fcontent (map_of (fsys (fst (snd ?r))) ''bak/chunk_1700000000_000.dat'') =
      Some (bytesOf ''ab'')"
    using bspec [OF stored m0]
    by (simp only: example_clock example_segment_files example_encodings snd_conv)
  have f1: "map_option fcontent (map_of (fsys (fst (snd ?r))) ''bak/chunk_1700000000_001.dat'') =
      Some (bytesOf ''big'')"
    using bspec [OF stored m1]
    by (simp only: example_clock example_segment_files example_encodings snd_conv)
  have out: "''bak/chunk_1700000000_003.dat'' \<notin>
      segmentFile exampleLib ''bak'' (now emptyBackup div 1000000000) ` set (snd (snd ?r))"
    unfolding segs example_clock by (simp add: example_segment_files)
  have f3: "map_of (fsys (fst (snd ?r))) ''bak/chunk_1700000000_003.dat'' = None"
    using frame out by (simp add: emptyBackup_def exampleWorld_def)
  show ?thesis
    using nf empty ok facts names inj f0 f1 f3 by simp
qed

end
